theory Spec2Isabelle
  imports Complex_Main
begin

unbundle bit_operations_syntax

section \<open>Values exchanged with the server\<close>

text \<open>
  The client (\<^verbatim>\<open>client.py\<close>) keeps what the server sends in module-level variables and
  never inspects their types: whatever \<^verbatim>\<open>json.loads\<close> produced is stored. A variable
  therefore holds a decoded JSON value. A decoded object is a Python dict, whose keys are
  strings and unique; it is represented by its items, read with \<open>map_of\<close>. JSON numbers
  are the integers (fractional numbers play no part in what is verified here).
\<close>

datatype json =
    JNull
  | JBool bool
  | JInt int
  | JStr string
  | JList "json list"
  | JDict "(string \<times> json) list"

text \<open>Exceptions of the interpreter and of the libraries, as far as the client meets them.\<close>

datatype exn =
    KeyboardInterrupt
  | RuntimeError string
  | ZmqAgain
  | JSONDecodeError
  | KeyError
  | TypeError
  | IndexError
  | ZeroDivisionError
  | AttributeError
  | OtherException string

text \<open>\<^verbatim>\<open>except RuntimeError\<close> catches the class \<^verbatim>\<open>RuntimeError\<close>; \<^verbatim>\<open>zmq.Again\<close>, \<^verbatim>\<open>KeyError\<close>,
  \<^verbatim>\<open>TypeError\<close>, \<^verbatim>\<open>AttributeError\<close> and \<^verbatim>\<open>json.JSONDecodeError\<close> are not subclasses of it.\<close>

fun isRuntimeError :: "exn \<Rightarrow> bool" where
  "isRuntimeError (RuntimeError m) = True"
| "isRuntimeError e = False"

text \<open>Python's truth value of an object, as \<^verbatim>\<open>if OPEN_GATE:\<close> takes it.\<close>

fun truthy :: "json \<Rightarrow> bool" where
  "truthy JNull = False"
| "truthy (JBool b) = b"
| "truthy (JInt i) = (i \<noteq> 0)"
| "truthy (JStr s) = (s \<noteq> [])"
| "truthy (JList xs) = (xs \<noteq> [])"
| "truthy (JDict d) = (d \<noteq> [])"

text \<open>Reading position \<open>i\<close> of a list or string. Python accepts \<open>-len \<le> i < len\<close> and reads
  position \<open>len + i\<close> for a negative \<open>i\<close>; any other position raises \<^verbatim>\<open>IndexError\<close>.\<close>

definition seq_index :: "'a list \<Rightarrow> int \<Rightarrow> exn + 'a" where
  "seq_index xs i =
     (if 0 \<le> i \<and> i < int (length xs) then Inr (xs ! nat i)
      else if i < 0 \<and> - int (length xs) \<le> i then Inr (xs ! nat (int (length xs) + i))
      else Inl IndexError)"

text \<open>
  The subscript \<^verbatim>\<open>c[key]\<close>. A dict raises \<^verbatim>\<open>KeyError\<close> for a key it does not hold (every
  key of a decoded object is a string) and \<^verbatim>\<open>TypeError\<close> for an unhashable key; a list or
  a string takes an integer (a bool is one); nothing else can be subscripted.
\<close>

fun getitem :: "json \<Rightarrow> json \<Rightarrow> exn + json" where
  "getitem (JDict d) (JStr key) = (case map_of d key of None \<Rightarrow> Inl KeyError | Some v \<Rightarrow> Inr v)"
| "getitem (JDict d) (JList xs) = Inl TypeError"
| "getitem (JDict d) (JDict e) = Inl TypeError"
| "getitem (JDict d) key = Inl KeyError"
| "getitem (JList xs) (JInt i) = seq_index xs i"
| "getitem (JList xs) (JBool b) = seq_index xs (if b then 1 else 0)"
| "getitem (JList xs) key = Inl TypeError"
| "getitem (JStr s) (JInt i) = map_sum id (\<lambda>c. JStr [c]) (seq_index s i)"
| "getitem (JStr s) (JBool b) = map_sum id (\<lambda>c. JStr [c]) (seq_index s (if b then 1 else 0))"
| "getitem (JStr s) key = Inl TypeError"
| "getitem c key = Inl TypeError"

text \<open>Whether \<^verbatim>\<open>for x in v\<close> can iterate over the value.\<close>

fun iterable :: "json \<Rightarrow> bool" where
  "iterable (JList xs) = True"
| "iterable (JStr s) = True"
| "iterable (JDict d) = True"
| "iterable v = False"

section \<open>Command line and start-up\<close>

text \<open>The options of the argument parser. The three paths default to files below the
  directory \<^verbatim>\<open>weights\<close> beside the script, which is the parameter \<open>modelDir\<close>.\<close>

record args =
  embedding_weights :: string
  database :: string
  dlib_face_predictor :: string
  consecutive :: int
  k :: int
  threshold :: int
  region :: "int list option"
  display :: bool
  fullscreen :: bool
  card_cooldown :: int
  virtual :: bool
  cam :: int
  server_address :: string

definition default_args :: "string \<Rightarrow> args" where
  "default_args modelDir =
     \<lparr> embedding_weights = modelDir @ ''/openface.pth'',
       database = modelDir @ ''/REALTIME-DB.tar'',
       dlib_face_predictor = modelDir @ ''/shape_predictor_68_face_landmarks.dat'',
       consecutive = 30,
       k = 100,
       threshold = 50,
       region = None,
       display = False,
       fullscreen = False,
       card_cooldown = 3,
       virtual = False,
       cam = 0,
       server_address = ''tcp://localhost:5555'' \<rparr>"

text \<open>The socket as \<^verbatim>\<open>initializeClient\<close> configures it; the receive timeout is in milliseconds.\<close>

record socket =
  address :: string
  RCVTIMEO :: int

definition client_socket :: "args \<Rightarrow> socket" where
  "client_socket a = \<lparr> address = server_address a, RCVTIMEO = 1000 \<rparr>"

text \<open>The bound on timeouts, a local constant of \<^verbatim>\<open>asyncRecvLoop\<close>.\<close>

definition max_timeout :: int where
  "max_timeout = 100"

section \<open>The state of the client\<close>

text \<open>The module-level variables. Times are the readings of \<^verbatim>\<open>time()\<close>, in seconds.\<close>

record globals =
  IS_CLIENT_RUNNING :: bool
  start_time :: real
  it :: int
  idle_begin :: real
  id_counter :: json
  BOUNDING_BOXES :: json
  MAIN_BBOX :: json
  CARD2NAME :: json
  OPEN_GATE :: json
  AUTHORIZED_ID :: json
  RECOGNIZED_ID :: json
  consecutive_occurrence :: json

text \<open>An image is its rows of pixels.\<close>

type_synonym image = "nat list list"

text \<open>
  Where a loop stands. \<open>Running\<close>: at the call that opens its next iteration (the capture
  loop at \<^verbatim>\<open>cap.read()\<close>, the receive loop inside \<^verbatim>\<open>recv_string\<close>), the \<^verbatim>\<open>while\<close> test already
  passed. \<open>Within\<close>: inside an iteration, at the given point. \<open>Stopped\<close>: it has left its
  \<^verbatim>\<open>while\<close> (condition false or \<^verbatim>\<open>break\<close>). \<open>Crashed\<close>: an exception that nothing caught has
  unwound it.
\<close>

datatype 'pc status = Running | Within 'pc | Stopped | Crashed exn

text \<open>
  The points inside an iteration of the capture loop at which the other thread can come
  in between: each is the place of the next access to a variable that both threads use,
  with the local values the rest of the iteration needs.
  \<^item> \<open>AtKey\<close>: line 279, virtual mode; the test \<^verbatim>\<open>AUTHORIZED_ID is None\<close> was true, the key is
    awaited and then written.
  \<^item> \<open>AtWrite\<close>: line 284; the test was true and the card has four fields, its first is
    written next.
  \<^item> \<open>AtDispatch\<close>: line 287, which reads \<^verbatim>\<open>AUTHORIZED_ID\<close> for the send thread.
  \<^item> \<open>AtGate\<close>: line 302, which reads \<^verbatim>\<open>OPEN_GATE\<close>.
  \<^item> \<open>AtName\<close>, \<open>AtLookup\<close>, \<open>AtPrint\<close>: line 303, which reads \<^verbatim>\<open>CARD2NAME\<close>, then
    \<^verbatim>\<open>RECOGNIZED_ID\<close> for the subscript, then \<^verbatim>\<open>RECOGNIZED_ID\<close> again for the \<^verbatim>\<open>print\<close>.
  \<^item> \<open>AtActuate\<close>: lines 304 and 305, which read \<^verbatim>\<open>RECOGNIZED_ID\<close> for the actuator.
  \<^item> \<open>AtBox\<close>: line 308, which reads \<^verbatim>\<open>MAIN_BBOX\<close>.
  \<^item> \<open>AtBoxes\<close>: line 336, which reads \<^verbatim>\<open>BOUNDING_BOXES\<close>.
\<close>

datatype main_pc =
    AtKey "image option"
  | AtWrite "image option" json
  | AtDispatch "image option"
  | AtGate
  | AtName
  | AtLookup json
  | AtPrint json
  | AtActuate
  | AtBox
  | AtBoxes

text \<open>Inside \<^verbatim>\<open>recv\<close>: the decoded message and the number of assignments already made
  (lines 209 to 216); after the eighth, \<^verbatim>\<open>recv\<close> returns and the \<^verbatim>\<open>while\<close> is tested.\<close>

datatype recv_pc = Assigning json nat

text \<open>What the program prints, one constructor for each \<^verbatim>\<open>print\<close> of the source, and the
  report the interpreter writes when an exception leaves a thread uncaught.\<close>

datatype line =
    SendError exn
  | SendImage nat json
  | RecvError exn
  | RecvTimeout int int
  | RecvLoopError exn
  | Interrupted
  | ExitingRecvLoop
  | BeginCapture
  | OpenLine json json real
  | Traceback exn

text \<open>A value inside the pickled message to the server: bytes or an ordinary object.\<close>

datatype pyobj = PyBytes string | PyVal json

text \<open>
  The whole client: the variables, where the capture loop of the main thread and the
  receive loop of the receive thread stand, the local counter of the receive loop, the
  output, the send threads started and not yet run (with their arguments), the messages
  handed to the socket, and the calls of the actuator (time and identity).
\<close>

record state = globals +
  main_status :: "main_pc status"
  recv_status :: "recv_pc status"
  current_timeout :: int
  stdout :: "line list"
  threads :: "(image \<times> json) list"
  wire :: "(string \<times> pyobj) list list"
  actuated :: "(real \<times> json) list"

text \<open>The variables as \<^verbatim>\<open>initializeClient\<close> leaves them, with the receive thread started and
  \<^verbatim>\<open>Begin capture\<close> printed. \<open>now\<close> is the reading of the clock.\<close>

definition started :: "real \<Rightarrow> state" where
  "started now =
     \<lparr> IS_CLIENT_RUNNING = True,
       start_time = now,
       it = 0,
       idle_begin = - 1,
       id_counter = JNull,
       BOUNDING_BOXES = JNull,
       MAIN_BBOX = JNull,
       CARD2NAME = JDict [],
       OPEN_GATE = JBool False,
       AUTHORIZED_ID = JNull,
       RECOGNIZED_ID = JNull,
       consecutive_occurrence = JInt 0,
       main_status = Running,
       recv_status = Running,
       current_timeout = 0,
       stdout = [BeginCapture],
       threads = [],
       wire = [],
       actuated = [] \<rparr>"

text \<open>\<^verbatim>\<open>initializeClient\<close> raises when the first \<^verbatim>\<open>cap.read()\<close>, whose result is \<open>ret\<close>, fails.\<close>

definition initializeClient :: "args \<Rightarrow> bool \<Rightarrow> real \<Rightarrow> exn + state" where
  "initializeClient a ret now =
     (if \<not> ret then Inl (RuntimeError ''Video capture was unsuccessful.'')
      else Inr (started now))"

section \<open>Sending a frame\<close>

text \<open>The dict that \<^verbatim>\<open>send\<close> pickles; \<open>jpg_as_text\<close> is the base64 text of the JPEG.\<close>

definition client_data :: "string \<Rightarrow> json \<Rightarrow> (string \<times> pyobj) list" where
  "client_data jpg_as_text aid =
     [(''bgrImg'', PyBytes jpg_as_text), (''AUTHORIZED_ID'', PyVal aid)]"

text \<open>What the libraries do in one run of \<^verbatim>\<open>send\<close>: the encoded image, and whether
  \<^verbatim>\<open>client_socket.send\<close> raises.\<close>

record send_env =
  jpg_as_text :: string
  socket_send :: "exn option"

text \<open>
  \<^verbatim>\<open>send\<close>, run in a thread of its own. It returns the exception that leaves it, if any,
  and the state. A \<^verbatim>\<open>RuntimeError\<close> of the socket is printed and swallowed, and the last
  \<^verbatim>\<open>print\<close> still runs; any other exception leaves the function before that.
\<close>

definition send :: "send_env \<Rightarrow> image \<Rightarrow> json \<Rightarrow> 'a state_scheme \<Rightarrow> exn option \<times> 'a state_scheme" where
  "send env bgrImg aid s =
     (let message = client_data (jpg_as_text env) aid
      in case socket_send env of
           None \<Rightarrow>
             (None, s\<lparr> wire := wire s @ [message],
                       stdout := stdout s @ [SendImage (length bgrImg) aid] \<rparr>)
         | Some e \<Rightarrow>
             if isRuntimeError e
             then (None, s\<lparr> stdout := stdout s @ [SendError e, SendImage (length bgrImg) aid] \<rparr>)
             else (Some e, s))"

text \<open>The thread around \<^verbatim>\<open>send\<close>: thread \<open>n\<close> of the pending ones runs and is gone; an
  exception that leaves \<^verbatim>\<open>send\<close> ends the thread, and the interpreter reports it.\<close>

definition send_thread :: "nat \<Rightarrow> send_env \<Rightarrow> 'a state_scheme \<Rightarrow> 'a state_scheme" where
  "send_thread n env s =
     (if n < length (threads s)
      then (let (bgrImg, aid) = threads s ! n;
                s1 = s\<lparr> threads := take n (threads s) @ drop (Suc n) (threads s) \<rparr>
            in case send env bgrImg aid s1 of
                 (None, s2) \<Rightarrow> s2
               | (Some e, s2) \<Rightarrow> s2\<lparr> stdout := stdout s2 @ [Traceback e] \<rparr>)
      else s)"

section \<open>Receiving\<close>

text \<open>What the socket and the decoder do in one call of \<^verbatim>\<open>recv\<close>: \<^verbatim>\<open>recv_string\<close> raises
  (\<^verbatim>\<open>zmq.Again\<close> after the receive timeout), or the text received is not JSON, or it
  decodes to a value.\<close>

datatype recv_in = SocketRaises exn | Undecodable | Decoded json

text \<open>One assignment \<^verbatim>\<open>X = statistics['X']\<close> after those before it: it runs only if none of
  them raised, and raises itself if the subscript does.\<close>

definition assign_from :: "json \<Rightarrow> string \<Rightarrow> (json \<Rightarrow> 'g \<Rightarrow> 'g) \<Rightarrow> exn option \<times> 'g \<Rightarrow> exn option \<times> 'g" where
  "assign_from statistics key upd r =
     (case r of
        (Some e, g) \<Rightarrow> (Some e, g)
      | (None, g) \<Rightarrow>
          (case getitem statistics (JStr key) of
             Inl e \<Rightarrow> (Some e, g)
           | Inr v \<Rightarrow> (None, upd v g)))"

text \<open>The eight assignments of \<^verbatim>\<open>recv\<close>, in the order of the source.\<close>

definition recv_apply :: "json \<Rightarrow> 'a globals_scheme \<Rightarrow> exn option \<times> 'a globals_scheme" where
  "recv_apply statistics g =
     (assign_from statistics ''consecutive_occurrence'' (\<lambda>v. consecutive_occurrence_update (\<lambda>_. v))
     (assign_from statistics ''RECOGNIZED_ID'' (\<lambda>v. RECOGNIZED_ID_update (\<lambda>_. v))
     (assign_from statistics ''AUTHORIZED_ID'' (\<lambda>v. AUTHORIZED_ID_update (\<lambda>_. v))
     (assign_from statistics ''OPEN_GATE'' (\<lambda>v. OPEN_GATE_update (\<lambda>_. v))
     (assign_from statistics ''CARD2NAME'' (\<lambda>v. CARD2NAME_update (\<lambda>_. v))
     (assign_from statistics ''MAIN_BBOX'' (\<lambda>v. MAIN_BBOX_update (\<lambda>_. v))
     (assign_from statistics ''BOUNDING_BOXES'' (\<lambda>v. BOUNDING_BOXES_update (\<lambda>_. v))
     (assign_from statistics ''id_counter'' (\<lambda>v. id_counter_update (\<lambda>_. v))
       (None, g)))))))))"

text \<open>The keys that \<^verbatim>\<open>recv\<close> reads, in the order of its assignments.\<close>

definition recv_fields :: "string list" where
  "recv_fields = [''id_counter'', ''BOUNDING_BOXES'', ''MAIN_BBOX'', ''CARD2NAME'',
                  ''OPEN_GATE'', ''AUTHORIZED_ID'', ''RECOGNIZED_ID'', ''consecutive_occurrence'']"

text \<open>\<^verbatim>\<open>recv\<close>: the body of the \<^verbatim>\<open>try\<close>, and the handler, which prints and swallows a
  \<^verbatim>\<open>RuntimeError\<close> and lets everything else through with the variables as they are then.\<close>

definition recv_body :: "recv_in \<Rightarrow> 'a state_scheme \<Rightarrow> exn option \<times> 'a state_scheme" where
  "recv_body r s =
     (case r of
        SocketRaises e \<Rightarrow> (Some e, s)
      | Undecodable \<Rightarrow> (Some JSONDecodeError, s)
      | Decoded statistics \<Rightarrow> recv_apply statistics s)"

definition recv :: "recv_in \<Rightarrow> 'a state_scheme \<Rightarrow> exn option \<times> 'a state_scheme" where
  "recv r s =
     (case recv_body r s of
        (None, s1) \<Rightarrow> (None, s1)
      | (Some e, s1) \<Rightarrow>
          if isRuntimeError e then (None, s1\<lparr> stdout := stdout s1 @ [RecvError e] \<rparr>)
          else (Some e, s1))"

text \<open>
  One iteration of \<^verbatim>\<open>asyncRecvLoop\<close> and the test of its \<^verbatim>\<open>while\<close> that follows. A timeout
  adds one to the counter; nothing else writes the counter. \<^verbatim>\<open>KeyboardInterrupt\<close> breaks
  out of the loop; an exception with no handler ends the thread.
\<close>

definition recv_exit :: "'a state_scheme \<Rightarrow> 'a state_scheme" where
  "recv_exit s = s\<lparr> recv_status := Stopped, stdout := stdout s @ [ExitingRecvLoop] \<rparr>"

definition recv_while :: "'a state_scheme \<Rightarrow> 'a state_scheme" where
  "recv_while s =
     (if IS_CLIENT_RUNNING s \<and> current_timeout s < max_timeout then s else recv_exit s)"

definition asyncRecvLoop :: "recv_in \<Rightarrow> 'a state_scheme \<Rightarrow> 'a state_scheme" where
  "asyncRecvLoop r s =
     (case recv r s of
        (None, s1) \<Rightarrow> recv_while s1
      | (Some e, s1) \<Rightarrow>
          if e = ZmqAgain
          then recv_while
                 (s1\<lparr> current_timeout := current_timeout s1 + 1,
                      stdout := stdout s1 @ [RecvTimeout (current_timeout s1 + 1) max_timeout] \<rparr>)
          else if isRuntimeError e
          then recv_while (s1\<lparr> stdout := stdout s1 @ [RecvLoopError e] \<rparr>)
          else if e = KeyboardInterrupt
          then recv_exit (s1\<lparr> stdout := stdout s1 @ [Interrupted] \<rparr>)
          else s1\<lparr> recv_status := Crashed e, stdout := stdout s1 @ [Traceback e] \<rparr>)"

section \<open>The capture loop\<close>

text \<open>
  What the camera, the card reader, the keyboard, the thread library, the actuator, the
  display and the clock do in one iteration of the capture loop. \<^verbatim>\<open>KeyboardInterrupt\<close>
  reaches the main thread while it waits for the camera. The clock is read once for the
  iteration. \<open>draw\<close> stands for the calls of \<^verbatim>\<open>drawBBox\<close>, \<^verbatim>\<open>drawBanner\<close> and \<^verbatim>\<open>cv2.imshow\<close>.
\<close>

datatype cap_read = CapInterrupted | CapResult bool "image option"

record tick_env =
  cap :: cap_read
  readCardID :: "exn + json list"
  pressedKeyCode :: int
  thread_start :: "exn option"
  emulateCardID :: "exn option"
  draw :: "exn option"
  waitKey :: int
  now :: real

text \<open>How a run of the loop body ends.\<close>

datatype outcome = Normal | Continue | Break | Raise exn

text \<open>\<^verbatim>\<open>cv2.flip(img, 1)\<close> mirrors every row. It raises nothing: for the missing image of a
  failed read, and for an image without pixels, it returns \<^verbatim>\<open>None\<close>.\<close>

definition cv2_flip :: "image option \<Rightarrow> image option" where
  "cv2_flip img =
     (case img of
        None \<Rightarrow> None
      | Some i \<Rightarrow> if concat i = [] then None else Some (map rev i))"

text \<open>STEP 1. The image is flipped, then \<open>ret\<close> is tested.\<close>

definition read_image :: "tick_env \<Rightarrow> exn + image option" where
  "read_image env =
     (case cap env of
        CapInterrupted \<Rightarrow> Inl KeyboardInterrupt
      | CapResult ret img \<Rightarrow>
          (let bgrImg = cv2_flip img
           in if \<not> ret then Inl (RuntimeError ''Video capture was unsuccessful.'')
              else Inr bgrImg))"

text \<open>STEP 2. The card is read in every iteration unless the client is virtual; the
  identity is taken from the card, or from the key pressed, only while it is \<^verbatim>\<open>None\<close>.\<close>

definition read_card :: "args \<Rightarrow> tick_env \<Rightarrow> 'a state_scheme \<Rightarrow> exn + 'a state_scheme" where
  "read_card a env s =
     (if \<not> virtual a
      then (case readCardID env of
              Inl e \<Rightarrow> Inl e
            | Inr CardData \<Rightarrow>
                Inr (if AUTHORIZED_ID s = JNull \<and> length CardData = 4
                     then s\<lparr> AUTHORIZED_ID := CardData ! 0 \<rparr> else s))
      else Inr (if AUTHORIZED_ID s = JNull \<and> pressedKeyCode env \<noteq> - 1
                then s\<lparr> AUTHORIZED_ID := JStr [char_of (pressedKeyCode env AND 255)] \<rparr>
                else s))"

text \<open>The frame and the identity go to a new thread; the loop does not wait for it.
  \<^verbatim>\<open>bgrImg.copy()\<close> is evaluated first and fails when there is no image.\<close>

definition dispatch :: "tick_env \<Rightarrow> image option \<Rightarrow> 'a state_scheme \<Rightarrow> exn option \<times> 'a state_scheme" where
  "dispatch env bgrImg s =
     (case bgrImg of
        None \<Rightarrow> (Some AttributeError, s)
      | Some img \<Rightarrow>
          (case thread_start env of
             Some e \<Rightarrow> (Some e, s)
           | None \<Rightarrow> (None, s\<lparr> threads := threads s @ [(img, AUTHORIZED_ID s)] \<rparr>)))"

text \<open>The branch \<^verbatim>\<open>if OPEN_GATE:\<close>. The name is looked up for the \<^verbatim>\<open>print\<close> first; the
  actuator is called unless the client is virtual.\<close>

definition open_gate :: "args \<Rightarrow> tick_env \<Rightarrow> 'a state_scheme \<Rightarrow> exn option \<times> 'a state_scheme" where
  "open_gate a env s =
     (if truthy (OPEN_GATE s)
      then (case getitem (CARD2NAME s) (RECOGNIZED_ID s) of
              Inl e \<Rightarrow> (Some e, s)
            | Inr name \<Rightarrow>
                (let s1 = s\<lparr> stdout := stdout s @ [OpenLine name (RECOGNIZED_ID s) (now env)] \<rparr>
                 in if \<not> virtual a
                    then (let s2 = s1\<lparr> actuated := actuated s1 @ [(now env, RECOGNIZED_ID s1)] \<rparr>
                          in (emulateCardID env, s2))
                    else (None, s1)))
      else (None, s))"

text \<open>The rest of the body: the idle branch, which ends with \<^verbatim>\<open>continue\<close>, and the display.
  The frame rate divides by the time since the start.\<close>

definition show_frame :: "args \<Rightarrow> tick_env \<Rightarrow> 'a state_scheme \<Rightarrow> outcome \<times> 'a state_scheme" where
  "show_frame a env s =
     (if MAIN_BBOX s = JNull
      then (let s1 = (if idle_begin s < 0 then s\<lparr> idle_begin := now env \<rparr> else s)
            in if now env - start_time s1 = 0 then (Raise ZeroDivisionError, s1)
               else if display a
               then (case draw env of
                       Some e \<Rightarrow> (Raise e, s1)
                     | None \<Rightarrow> if waitKey env AND 255 = 113 then (Break, s1) else (Continue, s1))
               else (Continue, s1))
      else (let s1 = s\<lparr> idle_begin := - 1 \<rparr>
            in if display a
               then (if \<not> iterable (BOUNDING_BOXES s1) then (Raise TypeError, s1)
                     else case draw env of
                            Some e \<Rightarrow> (Raise e, s1)
                          | None \<Rightarrow> if waitKey env AND 255 = 113 then (Break, s1) else (Normal, s1))
               else (Normal, s1)))"

text \<open>The body of the \<^verbatim>\<open>try\<close>.\<close>

definition tick :: "args \<Rightarrow> tick_env \<Rightarrow> 'a state_scheme \<Rightarrow> outcome \<times> 'a state_scheme" where
  "tick a env s =
     (case read_image env of
        Inl e \<Rightarrow> (Raise e, s)
      | Inr bgrImg \<Rightarrow>
          (case read_card a env s of
             Inl e \<Rightarrow> (Raise e, s)
           | Inr s1 \<Rightarrow>
               (case dispatch env bgrImg s1 of
                  (Some e, s2) \<Rightarrow> (Raise e, s2)
                | (None, s2) \<Rightarrow>
                    (case open_gate a env s2 of
                       (Some e, s3) \<Rightarrow> (Raise e, s3)
                     | (None, s3) \<Rightarrow> show_frame a env s3))))"

text \<open>
  One iteration of \<^verbatim>\<open>while IS_CLIENT_RUNNING\<close> and the test of the condition that follows.
  The only handler is the one for \<^verbatim>\<open>KeyboardInterrupt\<close>, which clears the flag; any other
  exception unwinds the loop and ends the main thread.
\<close>

definition capture_while :: "'a state_scheme \<Rightarrow> 'a state_scheme" where
  "capture_while s = (if IS_CLIENT_RUNNING s then s else s\<lparr> main_status := Stopped \<rparr>)"

definition leave_body :: "outcome \<Rightarrow> 'a state_scheme \<Rightarrow> 'a state_scheme" where
  "leave_body out s =
     (case out of
        Raise e \<Rightarrow>
          if e = KeyboardInterrupt
          then capture_while (s\<lparr> IS_CLIENT_RUNNING := False, stdout := stdout s @ [Interrupted] \<rparr>)
          else s\<lparr> main_status := Crashed e, stdout := stdout s @ [Traceback e] \<rparr>
      | Break \<Rightarrow> s\<lparr> main_status := Stopped \<rparr>
      | _ \<Rightarrow> capture_while s)"

definition capture :: "args \<Rightarrow> tick_env \<Rightarrow> 'a state_scheme \<Rightarrow> 'a state_scheme" where
  "capture a env s = (case tick a env (s\<lparr> it := it s + 1 \<rparr>) of (out, s1) \<Rightarrow> leave_body out s1)"

section \<open>The capture loop, access by access\<close>

text \<open>
  No lock is taken anywhere (the calls are commented out), so the receive thread can run
  between any two accesses of the capture loop to the variables they share. The loop is
  therefore also given in atomic actions, each holding local work and at most one access
  to a shared variable. An action either moves to the next point of the iteration or ends
  the body with an outcome.
\<close>

text \<open>From the head of the loop to the test of line 275: the counter, the camera, the
  card reader, and the reading of \<^verbatim>\<open>AUTHORIZED_ID\<close> for the test.\<close>

definition at_head :: "args \<Rightarrow> tick_env \<Rightarrow> 'a state_scheme \<Rightarrow> (main_pc + outcome) \<times> 'a state_scheme" where
  "at_head a env s =
     (let s0 = s\<lparr> it := it s + 1 \<rparr>
      in case read_image env of
           Inl e \<Rightarrow> (Inr (Raise e), s0)
         | Inr bgrImg \<Rightarrow>
             if \<not> virtual a
             then (case readCardID env of
                     Inl e \<Rightarrow> (Inr (Raise e), s0)
                   | Inr CardData \<Rightarrow>
                       if AUTHORIZED_ID s0 = JNull \<and> length CardData = 4
                       then (Inl (AtWrite bgrImg (CardData ! 0)), s0)
                       else (Inl (AtDispatch bgrImg), s0))
             else if AUTHORIZED_ID s0 = JNull then (Inl (AtKey bgrImg), s0)
             else (Inl (AtDispatch bgrImg), s0))"

text \<open>The action at each point inside the iteration.\<close>

fun at_pc :: "args \<Rightarrow> tick_env \<Rightarrow> main_pc \<Rightarrow> 'a state_scheme \<Rightarrow> (main_pc + outcome) \<times> 'a state_scheme" where
  "at_pc a env (AtKey bgrImg) s =
     (Inl (AtDispatch bgrImg),
      if pressedKeyCode env \<noteq> - 1
      then s\<lparr> AUTHORIZED_ID := JStr [char_of (pressedKeyCode env AND 255)] \<rparr> else s)"
| "at_pc a env (AtWrite bgrImg x) s = (Inl (AtDispatch bgrImg), s\<lparr> AUTHORIZED_ID := x \<rparr>)"
| "at_pc a env (AtDispatch bgrImg) s =
     (case dispatch env bgrImg s of
        (Some e, s1) \<Rightarrow> (Inr (Raise e), s1)
      | (None, s1) \<Rightarrow> (Inl AtGate, s1))"
| "at_pc a env AtGate s = (if truthy (OPEN_GATE s) then Inl AtName else Inl AtBox, s)"
| "at_pc a env AtName s = (Inl (AtLookup (CARD2NAME s)), s)"
| "at_pc a env (AtLookup c) s =
     (case getitem c (RECOGNIZED_ID s) of
        Inl e \<Rightarrow> (Inr (Raise e), s)
      | Inr name \<Rightarrow> (Inl (AtPrint name), s))"
| "at_pc a env (AtPrint name) s =
     (Inl AtActuate, s\<lparr> stdout := stdout s @ [OpenLine name (RECOGNIZED_ID s) (now env)] \<rparr>)"
| "at_pc a env AtActuate s =
     (if \<not> virtual a
      then (case emulateCardID env of Some e \<Rightarrow> Inr (Raise e) | None \<Rightarrow> Inl AtBox,
            s\<lparr> actuated := actuated s @ [(now env, RECOGNIZED_ID s)] \<rparr>)
      else (Inl AtBox, s))"
| "at_pc a env AtBox s =
     (if MAIN_BBOX s = JNull then map_prod Inr id (show_frame a env s)
      else (if display a then Inl AtBoxes else Inr Normal, s\<lparr> idle_begin := - 1 \<rparr>))"
| "at_pc a env AtBoxes s =
     (if \<not> iterable (BOUNDING_BOXES s) then (Inr (Raise TypeError), s)
      else case draw env of
             Some e \<Rightarrow> (Inr (Raise e), s)
           | None \<Rightarrow> if waitKey env AND 255 = 113 then (Inr Break, s) else (Inr Normal, s))"

text \<open>One atomic action of the main thread: it goes to the next point, or the body has
  ended and the handler and the \<^verbatim>\<open>while\<close> test follow.\<close>

definition main_next :: "(main_pc + outcome) \<times> 'a state_scheme \<Rightarrow> 'a state_scheme" where
  "main_next r =
     (case r of
        (Inl pc, s) \<Rightarrow> s\<lparr> main_status := Within pc \<rparr>
      | (Inr out, s) \<Rightarrow> leave_body out (s\<lparr> main_status := Running \<rparr>))"

definition main_step :: "args \<Rightarrow> tick_env \<Rightarrow> 'a state_scheme \<Rightarrow> 'a state_scheme" where
  "main_step a env s =
     (case main_status s of
        Running \<Rightarrow> main_next (at_head a env s)
      | Within pc \<Rightarrow> main_next (at_pc a env pc s)
      | _ \<Rightarrow> s)"

text \<open>The main thread goes on alone until it is back at the head of the loop or the loop
  has ended; an iteration has at most nine actions after the first.\<close>

fun finish_main :: "nat \<Rightarrow> args \<Rightarrow> tick_env \<Rightarrow> 'a state_scheme \<Rightarrow> 'a state_scheme" where
  "finish_main 0 a env s = s"
| "finish_main (Suc n) a env s =
     (case main_status s of
        Within pc \<Rightarrow> finish_main n a env (main_step a env s)
      | _ \<Rightarrow> s)"

section \<open>The receive loop, assignment by assignment\<close>

text \<open>The writes of the eight assignments of \<^verbatim>\<open>recv\<close>, in their order; the keys are
  \<open>recv_fields\<close>.\<close>

definition writes :: "(json \<Rightarrow> 'a globals_scheme \<Rightarrow> 'a globals_scheme) list" where
  "writes =
     [\<lambda>v. id_counter_update (\<lambda>_. v),
      \<lambda>v. BOUNDING_BOXES_update (\<lambda>_. v),
      \<lambda>v. MAIN_BBOX_update (\<lambda>_. v),
      \<lambda>v. CARD2NAME_update (\<lambda>_. v),
      \<lambda>v. OPEN_GATE_update (\<lambda>_. v),
      \<lambda>v. AUTHORIZED_ID_update (\<lambda>_. v),
      \<lambda>v. RECOGNIZED_ID_update (\<lambda>_. v),
      \<lambda>v. consecutive_occurrence_update (\<lambda>_. v)]"

text \<open>An exception raised inside the \<^verbatim>\<open>try\<close> of \<^verbatim>\<open>recv\<close> takes the same way out wherever it
  was raised: the way of an exception raised by the socket, from the variables as they
  are then.\<close>

definition raised_in_recv :: "exn \<Rightarrow> 'a state_scheme \<Rightarrow> 'a state_scheme" where
  "raised_in_recv e s = asyncRecvLoop (SocketRaises e) (s\<lparr> recv_status := Running \<rparr>)"

text \<open>One atomic action inside \<^verbatim>\<open>recv\<close>: the assignment number \<open>i\<close> (its subscript and
  its write), or, after the eighth, the return and the test of the \<^verbatim>\<open>while\<close>.\<close>

definition assign_step :: "json \<Rightarrow> nat \<Rightarrow> 'a state_scheme \<Rightarrow> 'a state_scheme" where
  "assign_step statistics i s =
     (if i < length recv_fields
      then (case getitem statistics (JStr (recv_fields ! i)) of
              Inl e \<Rightarrow> raised_in_recv e s
            | Inr v \<Rightarrow> ((writes ! i) v s)\<lparr> recv_status := Within (Assigning statistics (Suc i)) \<rparr>)
      else recv_while (s\<lparr> recv_status := Running \<rparr>))"

text \<open>The pending \<^verbatim>\<open>recv_string\<close> returns. A message that decodes goes on to the first
  assignment; everything else is a whole iteration, which writes no shared variable.\<close>

definition deliver :: "recv_in \<Rightarrow> 'a state_scheme \<Rightarrow> 'a state_scheme" where
  "deliver r s =
     (case r of
        Decoded statistics \<Rightarrow> assign_step statistics 0 s
      | _ \<Rightarrow> asyncRecvLoop r s)"

text \<open>The receive thread goes on alone until it is back in \<^verbatim>\<open>recv_string\<close> or has ended.\<close>

fun finish_recv :: "nat \<Rightarrow> 'a state_scheme \<Rightarrow> 'a state_scheme" where
  "finish_recv 0 s = s"
| "finish_recv (Suc n) s =
     (case recv_status s of
        Within (Assigning statistics i) \<Rightarrow> finish_recv n (assign_step statistics i s)
      | _ \<Rightarrow> s)"

section \<open>The threads together\<close>

text \<open>
  The client is run by what happens to it, in any order.
  \<^item> \<open>Main\<close>: the main thread takes its next atomic action.
  \<^item> \<open>Deliver\<close>: the pending \<^verbatim>\<open>recv_string\<close> of the receive thread returns; \<open>Assign\<close>: the
    receive thread takes its next atomic action inside \<^verbatim>\<open>recv\<close>.
  \<^item> \<open>Send\<close>: a send thread runs.
  \<^item> \<open>Capture\<close>: a whole iteration of the capture loop that the receive thread does not
    interrupt; \<open>Receive\<close>: a whole iteration of the receive loop that the main thread does
    not interrupt. Both are runs of atomic actions (\<open>capture_uninterrupted\<close>,
    \<open>receive_uninterrupted\<close> below) and start only at the head of their loop.
  A loop that has ended takes no further part.
\<close>

datatype event =
    Capture tick_env
  | Receive recv_in
  | Send nat send_env
  | Main tick_env
  | Deliver recv_in
  | Assign

definition step :: "args \<Rightarrow> event \<Rightarrow> 'a state_scheme \<Rightarrow> 'a state_scheme" where
  "step a ev s =
     (case ev of
        Capture env \<Rightarrow> if main_status s = Running then capture a env s else s
      | Receive r \<Rightarrow> if recv_status s = Running then asyncRecvLoop r s else s
      | Send n env \<Rightarrow> send_thread n env s
      | Main env \<Rightarrow> main_step a env s
      | Deliver r \<Rightarrow> if recv_status s = Running then deliver r s else s
      | Assign \<Rightarrow>
          (case recv_status s of
             Within (Assigning statistics i) \<Rightarrow> assign_step statistics i s
           | _ \<Rightarrow> s))"

fun run :: "args \<Rightarrow> event list \<Rightarrow> 'a state_scheme \<Rightarrow> 'a state_scheme" where
  "run a [] s = s"
| "run a (ev # evs) s = run a evs (step a ev s)"

section \<open>Sample inputs\<close>

text \<open>A frame delivered at time \<open>t\<close> while card \<open>A\<close> lies on the reader, no key is pressed and
  every device works.\<close>

definition frame_at :: "real \<Rightarrow> tick_env" where
  "frame_at t =
     \<lparr> cap = CapResult True (Some [[0, 1], [2, 3]]),
       readCardID = Inr [JStr ''A'', JInt 0, JInt 0, JInt 0],
       pressedKeyCode = - 1,
       thread_start = None,
       emulateCardID = None,
       draw = None,
       waitKey = - 1,
       now = t \<rparr>"

text \<open>A complete message of the server about the face of \<open>A\<close>, with the gate decision and
  the authorized identity as given.\<close>

definition reply :: "bool \<Rightarrow> json \<Rightarrow> json" where
  "reply opn aid =
     JDict [(''id_counter'', JList [JList [JStr ''A'', JInt 30]]),
            (''BOUNDING_BOXES'', JList [JList [JInt 0, JInt 0, JInt 9, JInt 9]]),
            (''MAIN_BBOX'', JList [JInt 0, JInt 0, JInt 9, JInt 9]),
            (''CARD2NAME'', JDict [(''A'', JStr ''alice'')]),
            (''OPEN_GATE'', JBool opn),
            (''AUTHORIZED_ID'', aid),
            (''RECOGNIZED_ID'', JStr ''A''),
            (''consecutive_occurrence'', JInt 30)]"

text \<open>The receive times out \<open>n\<close> times in a row.\<close>

definition timeouts :: "nat \<Rightarrow> event list" where
  "timeouts n = replicate n (Receive (SocketRaises ZmqAgain))"

section \<open>Observations of the state\<close>

text \<open>The eight variables that \<^verbatim>\<open>recv\<close> assigns, in the order of the assignments.\<close>

definition session_variables :: "'a globals_scheme \<Rightarrow> json list" where
  "session_variables g =
     [id_counter g, BOUNDING_BOXES g, MAIN_BBOX g, CARD2NAME g,
      OPEN_GATE g, AUTHORIZED_ID g, RECOGNIZED_ID g, consecutive_occurrence g]"

text \<open>The receive loop runs only below the bound, and has stopped once the bound is reached.\<close>

definition bounded :: "'a state_scheme \<Rightarrow> bool" where
  "bounded s \<longleftrightarrow> current_timeout s \<le> max_timeout
     \<and> (current_timeout s = max_timeout \<longrightarrow> recv_status s = Stopped)"





text \<open>The state without what the send threads work on: the output, the pending send
  threads and the messages on the socket. Everything the two loops read is still there.\<close>

definition hide_sends :: "'a state_scheme \<Rightarrow> 'a state_scheme" where
  "hide_sends s = s\<lparr> stdout := [], threads := [], wire := [] \<rparr>"


section \<open>An iteration that nothing interrupts\<close>

text \<open>The rest of the loop body and what follows it, from line 308, from line 302 and
  from line 287, when the receive thread does not come in between.\<close>

definition after_box :: "args \<Rightarrow> tick_env \<Rightarrow> 'a state_scheme \<Rightarrow> 'a state_scheme" where
  "after_box a env s = (case show_frame a env s of (out, s1) \<Rightarrow> leave_body out s1)"

definition after_gate :: "args \<Rightarrow> tick_env \<Rightarrow> 'a state_scheme \<Rightarrow> 'a state_scheme" where
  "after_gate a env s =
     (case open_gate a env s of
        (Some e, s1) \<Rightarrow> leave_body (Raise e) s1
      | (None, s1) \<Rightarrow> after_box a env s1)"

definition after_dispatch :: "args \<Rightarrow> tick_env \<Rightarrow> image option \<Rightarrow> 'a state_scheme \<Rightarrow> 'a state_scheme" where
  "after_dispatch a env bgrImg s =
     (case dispatch env bgrImg s of
        (Some e, s1) \<Rightarrow> leave_body (Raise e) s1
      | (None, s1) \<Rightarrow> after_gate a env s1)"

section \<open>The message of the server\<close>






text \<open>The client with another place of the receive loop and another count of timeouts.\<close>

definition receive_side :: "recv_pc status \<Rightarrow> int \<Rightarrow> 'a state_scheme \<Rightarrow> 'a state_scheme" where
  "receive_side x n s = s\<lparr> recv_status := x, current_timeout := n \<rparr>"

section \<open>What each part of the client leaves alone\<close>

lemmas client_defs = step_def capture_def leave_body_def capture_while_def tick_def show_frame_def open_gate_def
  dispatch_def read_card_def read_image_def cv2_flip_def asyncRecvLoop_def recv_while_def recv_exit_def
  recv_def recv_body_def recv_apply_def assign_from_def send_thread_def send_def client_data_def
  started_def default_args_def max_timeout_def seq_index_def frame_at_def reply_def

text \<open>Each lemma says: an observation \<open>f\<close> of the state that does not depend on the fields
  a function writes is the same before and after it.\<close>

lemma assign_from_keeps:
  "(\<And>v g. f (upd v g) = f g) \<Longrightarrow> f (snd (assign_from st key upd r)) = f (snd r)"
  by (auto simp: assign_from_def split: prod.splits option.splits sum.splits)

lemma recv_apply_keeps:
  assumes "\<And>v g. f (id_counter_update v g) = f g"
    and "\<And>v g. f (BOUNDING_BOXES_update v g) = f g"
    and "\<And>v g. f (MAIN_BBOX_update v g) = f g"
    and "\<And>v g. f (CARD2NAME_update v g) = f g"
    and "\<And>v g. f (OPEN_GATE_update v g) = f g"
    and "\<And>v g. f (AUTHORIZED_ID_update v g) = f g"
    and "\<And>v g. f (RECOGNIZED_ID_update v g) = f g"
    and "\<And>v g. f (consecutive_occurrence_update v g) = f g"
  shows "f (snd (recv_apply st g)) = f g"
  unfolding recv_apply_def using assms by (simp add: assign_from_keeps)

lemma recv_keeps:
  assumes "\<And>v g. f (id_counter_update v g) = f g"
    and "\<And>v g. f (BOUNDING_BOXES_update v g) = f g"
    and "\<And>v g. f (MAIN_BBOX_update v g) = f g"
    and "\<And>v g. f (CARD2NAME_update v g) = f g"
    and "\<And>v g. f (OPEN_GATE_update v g) = f g"
    and "\<And>v g. f (AUTHORIZED_ID_update v g) = f g"
    and "\<And>v g. f (RECOGNIZED_ID_update v g) = f g"
    and "\<And>v g. f (consecutive_occurrence_update v g) = f g"
    and O: "\<And>v g. f (stdout_update v g) = f g"
  shows "f (snd (recv r s)) = f s"
proof -
  have "f (snd (recv_apply st s)) = f s" for st
    by (rule recv_apply_keeps) (fact assms)+
  then have "f (snd (recv_body r s)) = f s"
    by (cases r) (simp_all add: recv_body_def)
  then show ?thesis
    by (cases "recv_body r s") (simp add: recv_def O split: option.splits)
qed

lemma asyncRecvLoop_keeps:
  assumes "\<And>v g. f (id_counter_update v g) = f g"
    and "\<And>v g. f (BOUNDING_BOXES_update v g) = f g"
    and "\<And>v g. f (MAIN_BBOX_update v g) = f g"
    and "\<And>v g. f (CARD2NAME_update v g) = f g"
    and "\<And>v g. f (OPEN_GATE_update v g) = f g"
    and "\<And>v g. f (AUTHORIZED_ID_update v g) = f g"
    and "\<And>v g. f (RECOGNIZED_ID_update v g) = f g"
    and "\<And>v g. f (consecutive_occurrence_update v g) = f g"
    and O: "\<And>v g. f (stdout_update v g) = f g"
    and C: "\<And>v g. f (current_timeout_update v g) = f g"
    and R: "\<And>v g. f (recv_status_update v g) = f g"
  shows "f (asyncRecvLoop r s) = f s"
proof -
  have "f (snd (recv r s)) = f s"
    by (rule recv_keeps) (fact assms)+
  then show ?thesis
    by (cases "recv r s")
       (simp add: asyncRecvLoop_def recv_while_def recv_exit_def O C R split: option.splits)
qed

lemma read_card_keeps:
  assumes "\<And>v s. f (AUTHORIZED_ID_update v s) = f s"
  shows "read_card a env s = Inr s1 \<Longrightarrow> f s1 = f s"
  using assms by (auto simp: read_card_def split: sum.splits if_splits)

lemma dispatch_keeps:
  assumes "\<And>v s. f (threads_update v s) = f s"
  shows "f (snd (dispatch env img s)) = f s"
  using assms by (simp add: dispatch_def split: option.splits)

lemma open_gate_keeps:
  assumes "\<And>v s. f (stdout_update v s) = f s" and "\<And>v s. f (actuated_update v s) = f s"
  shows "f (snd (open_gate a env s)) = f s"
  using assms by (simp add: open_gate_def Let_def split: sum.splits)

lemma open_gate_virtual:
  assumes "\<And>v s. f (stdout_update v s) = f s" and "virtual a"
  shows "f (snd (open_gate a env s)) = f s"
  using assms by (simp add: open_gate_def Let_def split: sum.splits)

lemma show_frame_keeps:
  assumes "\<And>v s. f (idle_begin_update v s) = f s"
  shows "f (snd (show_frame a env s)) = f s"
  using assms by (simp add: show_frame_def Let_def split: option.splits)

lemma tick_keeps_from:
  assumes C: "\<And>s1. read_card a env s = Inr s1 \<Longrightarrow> f s1 = f s"
    and T: "\<And>v s. f (threads_update v s) = f s"
    and O: "\<And>v s. f (stdout_update v s) = f s"
    and I: "\<And>v s. f (idle_begin_update v s) = f s"
    and G: "(\<forall>v s. f (actuated_update v s) = f s) \<or> virtual a"
  shows "f (snd (tick a env s)) = f s"
proof (cases "read_image env")
  case (Inl e)
  then show ?thesis by (simp add: tick_def)
next
  case (Inr img)
  show ?thesis
  proof (cases "read_card a env s")
    case (Inl e)
    with Inr show ?thesis by (simp add: tick_def)
  next
    case s1: (Inr s1)
    have 1: "f s1 = f s" using C [OF s1] .
    have 2: "f (snd (dispatch env img s1)) = f s1" using dispatch_keeps [of f, OF T] .
    obtain r2 s2 where d: "dispatch env img s1 = (r2, s2)" by (cases "dispatch env img s1")
    have 3: "f (snd (open_gate a env s2)) = f s2"
    proof (cases "virtual a")
      case True
      then show ?thesis using open_gate_virtual [of f, OF O] by blast
    next
      case False
      with G have "\<And>v s. f (actuated_update v s) = f s" by blast
      then show ?thesis using open_gate_keeps [of f, OF O] by blast
    qed
    obtain r3 s3 where g: "open_gate a env s2 = (r3, s3)" by (cases "open_gate a env s2")
    have 4: "f (snd (show_frame a env s3)) = f s3" using show_frame_keeps [of f, OF I] .
    from 1 2 3 4 d g Inr s1 show ?thesis
      by (simp add: tick_def split: option.splits)
  qed
qed

lemma tick_keeps:
  assumes A: "\<And>v s. f (AUTHORIZED_ID_update v s) = f s"
    and T: "\<And>v s. f (threads_update v s) = f s"
    and O: "\<And>v s. f (stdout_update v s) = f s"
    and I: "\<And>v s. f (idle_begin_update v s) = f s"
    and G: "(\<forall>v s. f (actuated_update v s) = f s) \<or> virtual a"
  shows "f (snd (tick a env s)) = f s"
proof (rule tick_keeps_from)
  show "f s1 = f s" if "read_card a env s = Inr s1" for s1
    using read_card_keeps [of f, OF A that] .
qed (fact T O I G)+

lemma capture_keeps:
  assumes A: "\<And>v s. f (AUTHORIZED_ID_update v s) = f s"
    and T: "\<And>v s. f (threads_update v s) = f s"
    and O: "\<And>v s. f (stdout_update v s) = f s"
    and I: "\<And>v s. f (idle_begin_update v s) = f s"
    and G: "(\<forall>v s. f (actuated_update v s) = f s) \<or> virtual a"
    and N: "\<And>v s. f (it_update v s) = f s"
    and R: "\<And>v s. f (IS_CLIENT_RUNNING_update v s) = f s"
    and M: "\<And>v s. f (main_status_update v s) = f s"
  shows "f (capture a env s) = f s"
proof -
  have "f (snd (tick a env (s\<lparr> it := it s + 1 \<rparr>))) = f (s\<lparr> it := it s + 1 \<rparr>)"
    by (rule tick_keeps [OF A T O I G])
  then have "f (snd (tick a env (s\<lparr> it := it s + 1 \<rparr>))) = f s" by (simp add: N)
  then show ?thesis
    by (cases "tick a env (s\<lparr> it := it s + 1 \<rparr>)")
       (simp add: capture_def leave_body_def capture_while_def O R M split: outcome.splits)
qed

lemma send_thread_keeps:
  assumes "\<And>v s. f (stdout_update v s) = f s" and "\<And>v s. f (threads_update v s) = f s"
    and "\<And>v s. f (wire_update v s) = f s"
  shows "f (send_thread n env s) = f s"
  using assms by (simp add: send_thread_def send_def Let_def split: prod.splits option.splits)

section \<open>An iteration is a run of atomic actions\<close>

text \<open>The capture loop first, then the receive loop.\<close>

lemma finish_main_done:
  "main_status s = Running \<Longrightarrow> finish_main n a env s = s"
  "main_status s = Stopped \<Longrightarrow> finish_main n a env s = s"
  "main_status s = Crashed e \<Longrightarrow> finish_main n a env s = s"
  by (cases n; simp)+

lemma finish_main_within:
  "main_status s = Within pc \<Longrightarrow> finish_main (Suc n) a env s = finish_main n a env (main_step a env s)"
  by simp

lemma leave_body_done:
  "finish_main n a env (leave_body out (s\<lparr> main_status := Running \<rparr>)) = leave_body out (s\<lparr> main_status := Running \<rparr>)"
  by (cases out) (auto simp: leave_body_def capture_while_def finish_main_done)

text \<open>The position of a loop is written last.\<close>

lemma status_last:
  "stdout_update f1 (main_status_update h s) = main_status_update h (stdout_update f1 s)"
  "actuated_update f2 (main_status_update h s) = main_status_update h (actuated_update f2 s)"
  "threads_update f3 (main_status_update h s) = main_status_update h (threads_update f3 s)"
  "idle_begin_update f4 (main_status_update h s) = main_status_update h (idle_begin_update f4 s)"
  "AUTHORIZED_ID_update f5 (main_status_update h s) = main_status_update h (AUTHORIZED_ID_update f5 s)"
  "it_update f6 (main_status_update h s) = main_status_update h (it_update f6 s)"
  by simp_all

lemma show_frame_at:
  "show_frame a env (s\<lparr> main_status := x \<rparr>) = map_prod id (\<lambda>t. t\<lparr> main_status := x \<rparr>) (show_frame a env s)"
  by (simp add: show_frame_def Let_def split: option.splits)

lemma open_gate_at:
  "open_gate a env (s\<lparr> main_status := x \<rparr>) = map_prod id (\<lambda>t. t\<lparr> main_status := x \<rparr>) (open_gate a env s)"
  by (simp add: open_gate_def Let_def split: sum.splits)

lemma dispatch_at:
  "dispatch env img (s\<lparr> main_status := x \<rparr>) = map_prod id (\<lambda>t. t\<lparr> main_status := x \<rparr>) (dispatch env img s)"
  by (simp add: dispatch_def split: option.splits)

lemma after_box_at:
  "after_box a env (s\<lparr> main_status := Running \<rparr>) =
     (case show_frame a env s of (out, s1) \<Rightarrow> leave_body out (s1\<lparr> main_status := Running \<rparr>))"
  by (simp add: after_box_def show_frame_at split: prod.splits)

lemma after_gate_at:
  "after_gate a env (s\<lparr> main_status := Running \<rparr>) =
     (case open_gate a env s of
        (Some e, s1) \<Rightarrow> leave_body (Raise e) (s1\<lparr> main_status := Running \<rparr>)
      | (None, s1) \<Rightarrow> after_box a env (s1\<lparr> main_status := Running \<rparr>))"
  by (simp add: after_gate_def open_gate_at split: prod.splits option.splits)

lemma after_dispatch_at:
  "after_dispatch a env img (s\<lparr> main_status := Running \<rparr>) =
     (case dispatch env img s of
        (Some e, s1) \<Rightarrow> leave_body (Raise e) (s1\<lparr> main_status := Running \<rparr>)
      | (None, s1) \<Rightarrow> after_gate a env (s1\<lparr> main_status := Running \<rparr>))"
  by (simp add: after_dispatch_def dispatch_at split: prod.splits option.splits)

lemma from_boxes:
  assumes "main_status s = Within AtBoxes"
  shows "finish_main (Suc n) a env s =
     (if \<not> iterable (BOUNDING_BOXES s) then leave_body (Raise TypeError) (s\<lparr> main_status := Running \<rparr>)
      else case draw env of
             Some e \<Rightarrow> leave_body (Raise e) (s\<lparr> main_status := Running \<rparr>)
           | None \<Rightarrow> if waitKey env AND 255 = 113 then leave_body Break (s\<lparr> main_status := Running \<rparr>)
                     else leave_body Normal (s\<lparr> main_status := Running \<rparr>))"
  apply (subst finish_main_within [OF assms])
  apply (simp del: finish_main.simps add: main_step_def main_next_def assms leave_body_done split: option.splits)
  done

lemma from_box:
  assumes "main_status s = Within AtBox"
  shows "finish_main (Suc (Suc n)) a env s = after_box a env (s\<lparr> main_status := Running \<rparr>)"
  unfolding after_box_at
  apply (subst finish_main_within [OF assms])
  apply (cases "MAIN_BBOX s = JNull")
   apply (cases "show_frame a env s")
   apply (simp del: finish_main.simps add: main_step_def main_next_def assms leave_body_done)
  apply (simp del: finish_main.simps add: main_step_def main_next_def assms leave_body_done status_last
      from_boxes show_frame_def split: option.splits)
  done

lemma from_actuate:
  assumes "main_status s = Within AtActuate"
  shows "finish_main (Suc (Suc (Suc n))) a env s =
     (if \<not> virtual a
      then (case emulateCardID env of
              Some e \<Rightarrow> leave_body (Raise e) (s\<lparr> actuated := actuated s @ [(now env, RECOGNIZED_ID s)], main_status := Running \<rparr>)
            | None \<Rightarrow> after_box a env (s\<lparr> actuated := actuated s @ [(now env, RECOGNIZED_ID s)], main_status := Running \<rparr>))
      else after_box a env (s\<lparr> main_status := Running \<rparr>))"
  apply (subst finish_main_within [OF assms])
  apply (simp del: finish_main.simps add: main_step_def main_next_def assms leave_body_done status_last
      from_box split: option.splits)
  done

lemma from_print:
  assumes "main_status s = Within (AtPrint name)"
  shows "finish_main (Suc (Suc (Suc (Suc n)))) a env s =
     (if \<not> virtual a
      then (case emulateCardID env of
              Some e \<Rightarrow> leave_body (Raise e)
                 (s\<lparr> stdout := stdout s @ [OpenLine name (RECOGNIZED_ID s) (now env)],
                     actuated := actuated s @ [(now env, RECOGNIZED_ID s)], main_status := Running \<rparr>)
            | None \<Rightarrow> after_box a env
                 (s\<lparr> stdout := stdout s @ [OpenLine name (RECOGNIZED_ID s) (now env)],
                     actuated := actuated s @ [(now env, RECOGNIZED_ID s)], main_status := Running \<rparr>))
      else after_box a env (s\<lparr> stdout := stdout s @ [OpenLine name (RECOGNIZED_ID s) (now env)], main_status := Running \<rparr>))"
  apply (subst finish_main_within [OF assms])
  apply (simp del: finish_main.simps add: main_step_def main_next_def assms leave_body_done status_last
      from_actuate split: option.splits)
  done

lemma from_gate:
  assumes "main_status s = Within AtGate"
  shows "finish_main (Suc (Suc (Suc (Suc (Suc (Suc (Suc n))))))) a env s = after_gate a env (s\<lparr> main_status := Running \<rparr>)"
proof -
  have f1: "finish_main (Suc (Suc (Suc (Suc (Suc n))))) a env (s\<lparr> main_status := Within (AtLookup c) \<rparr>) =
     (case getitem c (RECOGNIZED_ID s) of
        Inl e \<Rightarrow> leave_body (Raise e) (s\<lparr> main_status := Running \<rparr>)
      | Inr name \<Rightarrow> finish_main (Suc (Suc (Suc (Suc n)))) a env (s\<lparr> main_status := Within (AtPrint name) \<rparr>))" for c n
    apply (subst finish_main_within [of _ "AtLookup c"])
     apply simp
    apply (simp del: finish_main.simps add: main_step_def main_next_def leave_body_done split: sum.splits)
    done
  have f2: "finish_main (Suc (Suc (Suc (Suc (Suc (Suc n)))))) a env (s\<lparr> main_status := Within AtName \<rparr>) =
      finish_main (Suc (Suc (Suc (Suc (Suc n))))) a env (s\<lparr> main_status := Within (AtLookup (CARD2NAME s)) \<rparr>)" for n
    apply (subst finish_main_within [of _ AtName])
     apply simp
    apply (simp del: finish_main.simps add: main_step_def main_next_def)
    done
  show ?thesis
    unfolding after_gate_at
    apply (subst finish_main_within [OF assms])
    apply (simp del: finish_main.simps add: main_step_def main_next_def assms status_last
        f1 f2 from_print from_box open_gate_def split: option.splits sum.splits)
    done
qed

lemma from_dispatch:
  assumes "main_status s = Within (AtDispatch img)"
  shows "finish_main (Suc (Suc (Suc (Suc (Suc (Suc (Suc (Suc n)))))))) a env s
           = after_dispatch a env img (s\<lparr> main_status := Running \<rparr>)"
  unfolding after_dispatch_at
  apply (subst finish_main_within [OF assms])
  apply (simp del: finish_main.simps add: main_step_def main_next_def assms leave_body_done status_last
      from_gate dispatch_def split: option.splits)
  done

lemma from_write:
  assumes "main_status s = Within (AtWrite img x)"
  shows "finish_main (Suc (Suc (Suc (Suc (Suc (Suc (Suc (Suc (Suc n))))))))) a env s
           = after_dispatch a env img (s\<lparr> AUTHORIZED_ID := x, main_status := Running \<rparr>)"
  apply (subst finish_main_within [OF assms])
  apply (simp del: finish_main.simps add: main_step_def main_next_def assms status_last from_dispatch)
  done

lemma from_key:
  assumes "main_status s = Within (AtKey img)"
  shows "finish_main (Suc (Suc (Suc (Suc (Suc (Suc (Suc (Suc (Suc n))))))))) a env s
           = after_dispatch a env img
               ((if pressedKeyCode env \<noteq> - 1
                 then s\<lparr> AUTHORIZED_ID := JStr [char_of (pressedKeyCode env AND 255)] \<rparr> else s)
                \<lparr> main_status := Running \<rparr>)"
  apply (subst finish_main_within [OF assms])
  apply (simp del: finish_main.simps add: main_step_def main_next_def assms status_last from_dispatch)
  done

lemma capture_after_dispatch:
  "capture a env s =
     (case read_image env of
        Inl e \<Rightarrow> leave_body (Raise e) (s\<lparr> it := it s + 1 \<rparr>)
      | Inr img \<Rightarrow>
          (case read_card a env (s\<lparr> it := it s + 1 \<rparr>) of
             Inl e \<Rightarrow> leave_body (Raise e) (s\<lparr> it := it s + 1 \<rparr>)
           | Inr s1 \<Rightarrow> after_dispatch a env img s1))"
  by (simp add: capture_def tick_def after_dispatch_def after_gate_def after_box_def
        split: sum.splits prod.splits option.splits)

text \<open>A whole iteration is its atomic actions, one after the other.\<close>

lemma capture_uninterrupted:
  assumes "main_status s = Running"
  shows "capture a env s = finish_main 9 a env (main_step a env s)"
proof -
  have 9: "(9::nat) = Suc (Suc (Suc (Suc (Suc (Suc (Suc (Suc (Suc 0))))))))" by simp
  let ?s = "s\<lparr> it := it s + 1 \<rparr>"
  have r: "t\<lparr> main_status := Running \<rparr> = t" if "main_status t = Running" for t :: "'a state_scheme"
    using that by simp
  have m: "main_status ?s = Running" using assms by simp
  have raise: "finish_main 9 a env (leave_body (Raise e) ?s) = leave_body (Raise e) ?s" for e
    using leave_body_done [of 9 a env "Raise e" ?s] r [OF m] by simp
  have disp: "finish_main 9 a env (t\<lparr> main_status := Within (AtDispatch img) \<rparr>) = after_dispatch a env img t"
    if "main_status t = Running" for t :: "'a state_scheme" and img
    unfolding 9 using r [OF that] by (simp del: finish_main.simps add: from_dispatch)
  have wr: "finish_main 9 a env (?s\<lparr> main_status := Within (AtWrite img x) \<rparr>)
      = after_dispatch a env img (?s\<lparr> AUTHORIZED_ID := x \<rparr>)" for img x
  proof -
    have "?s\<lparr> AUTHORIZED_ID := x, main_status := Running \<rparr> = ?s\<lparr> AUTHORIZED_ID := x \<rparr>"
      using assms by simp
    then show ?thesis
      unfolding 9 by (simp del: finish_main.simps add: from_write status_last)
  qed
  have ky: "finish_main 9 a env (?s\<lparr> main_status := Within (AtKey img) \<rparr>)
      = after_dispatch a env img
          (if pressedKeyCode env \<noteq> - 1
           then ?s\<lparr> AUTHORIZED_ID := JStr [char_of (pressedKeyCode env AND 255)] \<rparr> else ?s)" for img
  proof -
    have "?s\<lparr> AUTHORIZED_ID := x, main_status := Running \<rparr> = ?s\<lparr> AUTHORIZED_ID := x \<rparr>" for x
      using assms by simp
    moreover have "?s\<lparr> main_status := Running \<rparr> = ?s" using assms by simp
    ultimately show ?thesis
      unfolding 9 by (simp del: finish_main.simps add: from_key status_last)
  qed
  have rs: "?s\<lparr> main_status := Running \<rparr> = ?s" using assms by simp
  show ?thesis
  proof (cases "read_image env")
    case (Inl e)
    with assms raise [of e] show ?thesis
      by (cases "AUTHORIZED_ID s = JNull"; cases "pressedKeyCode env = - 1"; simp del: finish_main.simps add: capture_after_dispatch main_step_def main_next_def at_head_def rs Let_def)
  next
    case img: (Inr img)
    show ?thesis
    proof (cases "virtual a")
      case True
      with img assms ky [of img] disp [OF m, of img] show ?thesis
        by (cases "AUTHORIZED_ID s = JNull"; cases "pressedKeyCode env = - 1"; simp del: finish_main.simps
              add: capture_after_dispatch main_step_def main_next_def at_head_def read_card_def rs Let_def)
    next
      case False
      show ?thesis
      proof (cases "readCardID env")
        case (Inl e)
        with False img assms raise [of e] show ?thesis
          by (cases "AUTHORIZED_ID s = JNull"; cases "pressedKeyCode env = - 1"; simp del: finish_main.simps
                add: capture_after_dispatch main_step_def main_next_def at_head_def read_card_def rs Let_def)
      next
        case (Inr cd)
        with False img assms wr [of img "cd ! 0"] disp [OF m, of img] show ?thesis
          by (cases "AUTHORIZED_ID s = JNull"; cases "pressedKeyCode env = - 1"; simp del: finish_main.simps
                add: capture_after_dispatch main_step_def main_next_def at_head_def read_card_def rs Let_def)
      qed
    qed
  qed
qed

lemma asyncRecvLoop_decoded:
  "asyncRecvLoop (Decoded st) s =
     (case recv_apply st s of
        (None, s1) \<Rightarrow> recv_while s1
      | (Some e, s1) \<Rightarrow> asyncRecvLoop (SocketRaises e) s1)"
  by (simp add: asyncRecvLoop_def recv_def recv_body_def split: prod.splits option.splits)

lemma finish_recv_done:
  "recv_status s = Running \<Longrightarrow> finish_recv n s = s"
  "recv_status s = Stopped \<Longrightarrow> finish_recv n s = s"
  "recv_status s = Crashed e \<Longrightarrow> finish_recv n s = s"
  by (cases n; simp)+

lemma recv_status_last:
  "id_counter_update f1 (recv_status_update h s) = recv_status_update h (id_counter_update f1 s)"
  "BOUNDING_BOXES_update f2 (recv_status_update h s) = recv_status_update h (BOUNDING_BOXES_update f2 s)"
  "MAIN_BBOX_update f3 (recv_status_update h s) = recv_status_update h (MAIN_BBOX_update f3 s)"
  "CARD2NAME_update f4 (recv_status_update h s) = recv_status_update h (CARD2NAME_update f4 s)"
  "OPEN_GATE_update f5 (recv_status_update h s) = recv_status_update h (OPEN_GATE_update f5 s)"
  "AUTHORIZED_ID_update f6 (recv_status_update h s) = recv_status_update h (AUTHORIZED_ID_update f6 s)"
  "RECOGNIZED_ID_update f7 (recv_status_update h s) = recv_status_update h (RECOGNIZED_ID_update f7 s)"
  "consecutive_occurrence_update f8 (recv_status_update h s) = recv_status_update h (consecutive_occurrence_update f8 s)"
  by simp_all

text \<open>Where the receive loop stands after an iteration that began in \<^verbatim>\<open>recv_string\<close>.\<close>

lemma asyncRecvLoop_socket_status:
  "recv_status (asyncRecvLoop (SocketRaises e) (s\<lparr> recv_status := Running \<rparr>)) \<noteq> Within pc"
  by (simp add: asyncRecvLoop_def recv_def recv_body_def recv_while_def recv_exit_def)

lemma raised_done: "finish_recv n (raised_in_recv e s) = raised_in_recv e s"
proof (cases "recv_status (raised_in_recv e s)")
  case (Within pc)
  with asyncRecvLoop_socket_status [of e s pc] show ?thesis by (simp add: raised_in_recv_def)
qed (simp_all add: finish_recv_done)

lemma recv_while_done:
  "finish_recv n (recv_while (s\<lparr> recv_status := Running \<rparr>)) = recv_while (s\<lparr> recv_status := Running \<rparr>)"
  by (simp add: recv_while_def recv_exit_def finish_recv_done)

lemma raised_in_recv_running:
  assumes "recv_status s = Running"
  shows "asyncRecvLoop (SocketRaises e) s = raised_in_recv e s"
proof -
  from assms have "s\<lparr> recv_status := Running \<rparr> = s" by simp
  then show ?thesis by (simp add: raised_in_recv_def)
qed

lemma finish_recv_within:
  "recv_status s = Within (Assigning st i) \<Longrightarrow> finish_recv (Suc n) s = finish_recv n (assign_step st i s)"
  by simp

lemma writes_commute:
  "i < 8 \<Longrightarrow> (writes ! i) v (s\<lparr> recv_status := x \<rparr>) = ((writes ! i) v s)\<lparr> recv_status := x \<rparr>"
proof -
  assume "i < 8"
  then have "i \<in> {0, 1, 2, 3} \<or> i \<in> {4, 5, 6, 7}" by auto
  then show ?thesis
    by (elim disjE insertE emptyE) (simp_all add: writes_def)
qed

lemma assign_from_raised:
  "foldl (\<lambda>r (key, w). assign_from st key w r) (Some e, g) kws = (Some e, g)"
  by (induction kws) (simp_all add: assign_from_def split: prod.splits)

lemma length_writes: "length (writes :: (json \<Rightarrow> 'a globals_scheme \<Rightarrow> 'a globals_scheme) list) = 8"
  by (simp add: writes_def)

lemma length_recv_fields: "length recv_fields = 8"
  by (simp add: recv_fields_def)

text \<open>The assignments from number \<open>i\<close> on, as \<^verbatim>\<open>recv\<close> makes them when nothing comes in between.\<close>

lemma assign_rest:
  assumes "recv_status s = Within (Assigning st i)" and "i \<le> 8"
  shows "finish_recv (Suc (8 - i) + n) s =
     (case foldl (\<lambda>r (key, w). assign_from st key w r) (None, s\<lparr> recv_status := Running \<rparr>)
             (drop i (zip recv_fields writes)) of
        (None, s1) \<Rightarrow> recv_while s1
      | (Some e, s1) \<Rightarrow> raised_in_recv e s1)"
  using assms
proof (induction "8 - i" arbitrary: i s)
  case 0
  then have i: "i = 8" by simp
  with 0 show ?case
    by (simp del: finish_recv.simps add: finish_recv_within assign_step_def length_recv_fields length_writes
          recv_while_done)
next
  case (Suc k)
  let ?F = "\<lambda>r (key, w). assign_from st key w r"
  let ?zs = "zip recv_fields writes :: (string \<times> (json \<Rightarrow> 'a state_scheme \<Rightarrow> 'a state_scheme)) list"
  from Suc have i: "i < 8" by simp
  have d: "drop i ?zs = (recv_fields ! i, writes ! i) # drop (Suc i) ?zs"
    using i by (simp add: Cons_nth_drop_Suc [symmetric] length_recv_fields length_writes)
  have "Suc (8 - i) + n = Suc (Suc (8 - Suc i) + n)" using i by simp
  then have f: "finish_recv (Suc (8 - i) + n) s = finish_recv (Suc (8 - Suc i) + n) (assign_step st i s)"
    using finish_recv_within [OF Suc.prems(1)] by (simp only:)
  have fold: "foldl ?F (None, s\<lparr> recv_status := Running \<rparr>) (drop i ?zs) =
      foldl ?F (assign_from st (recv_fields ! i) (writes ! i) (None, s\<lparr> recv_status := Running \<rparr>))
        (drop (Suc i) ?zs)"
    by (simp only: d foldl_Cons prod.case)
  show ?case
  proof (cases "getitem st (JStr (recv_fields ! i))")
    case (Inl e)
    with i have a: "assign_step st i s = raised_in_recv e s"
      by (simp add: assign_step_def length_recv_fields)
    have r: "raised_in_recv e (s\<lparr> recv_status := Running \<rparr>) = raised_in_recv e s"
      by (simp add: raised_in_recv_def)
    from Inl have "assign_from st (recv_fields ! i) (writes ! i) (None, s\<lparr> recv_status := Running \<rparr>)
        = (Some e, s\<lparr> recv_status := Running \<rparr>)"
      by (simp add: assign_from_def)
    then have "foldl ?F (None, s\<lparr> recv_status := Running \<rparr>) (drop i ?zs) = (Some e, s\<lparr> recv_status := Running \<rparr>)"
      by (simp only: fold assign_from_raised)
    then show ?thesis
      by (simp only: f a raised_done r prod.case option.case)
  next
    case (Inr v)
    let ?s = "((writes ! i) v s)\<lparr> recv_status := Within (Assigning st (Suc i)) \<rparr>"
    from Inr i have a: "assign_step st i s = ?s"
      by (simp add: assign_step_def length_recv_fields)
    have k: "k = 8 - Suc i" using Suc.hyps(2) by simp
    have ih: "finish_recv (Suc (8 - Suc i) + n) ?s =
      (case foldl ?F (None, ?s\<lparr> recv_status := Running \<rparr>) (drop (Suc i) ?zs) of
        (None, s1) \<Rightarrow> recv_while s1
      | (Some e, s1) \<Rightarrow> raised_in_recv e s1)"
      using i by (intro Suc.hyps(1) [OF k]) simp_all
    have c: "?s\<lparr> recv_status := Running \<rparr> = (writes ! i) v (s\<lparr> recv_status := Running \<rparr>)"
      using writes_commute [OF i, where v = v and s = s and x = Running] by simp
    from Inr have "assign_from st (recv_fields ! i) (writes ! i) (None, s\<lparr> recv_status := Running \<rparr>)
        = (None, (writes ! i) v (s\<lparr> recv_status := Running \<rparr>))"
      by (simp add: assign_from_def)
    then have "foldl ?F (None, s\<lparr> recv_status := Running \<rparr>) (drop i ?zs) =
        foldl ?F (None, ?s\<lparr> recv_status := Running \<rparr>) (drop (Suc i) ?zs)"
      by (simp only: fold c)
    then show ?thesis
      by (simp only: f a ih)
  qed
qed

lemma recv_apply_foldl:
  "recv_apply st g = foldl (\<lambda>r (key, w). assign_from st key w r) (None, g) (zip recv_fields writes)"
  by (simp add: recv_apply_def recv_fields_def writes_def)

text \<open>A whole iteration of the receive loop is its atomic actions, one after the other.\<close>

lemma receive_uninterrupted:
  assumes "recv_status s = Running"
  shows "asyncRecvLoop r s = finish_recv 8 (deliver r s)"
proof (cases r)
  case (Decoded st)
  from assms have rs: "s\<lparr> recv_status := Running \<rparr> = s" by simp
  have "recv_status (snd (recv_apply st s)) = recv_status s"
    by (rule recv_apply_keeps) simp_all
  with assms have r1: "recv_status (snd (recv_apply st s)) = Running" by simp
  have "finish_recv (Suc 8) (s\<lparr> recv_status := Within (Assigning st 0) \<rparr>) =
     (case recv_apply st s of (None, s1) \<Rightarrow> recv_while s1 | (Some e, s1) \<Rightarrow> raised_in_recv e s1)"
    using assign_rest [of "s\<lparr> recv_status := Within (Assigning st 0) \<rparr>" st 0 0] rs
    by (simp del: finish_recv.simps add: recv_apply_foldl)
  moreover have "finish_recv (Suc 8) (s\<lparr> recv_status := Within (Assigning st 0) \<rparr>)
      = finish_recv 8 (assign_step st 0 (s\<lparr> recv_status := Within (Assigning st 0) \<rparr>))"
    by (rule finish_recv_within) simp
  moreover have "assign_step st 0 (s\<lparr> recv_status := Within (Assigning st 0) \<rparr>) = assign_step st 0 s"
    using rs writes_commute [where i = 0 and s = s and x = "Within (Assigning st 0)"]
    by (simp add: assign_step_def raised_in_recv_def split: sum.splits)
  ultimately have "finish_recv 8 (assign_step st 0 s) =
     (case recv_apply st s of (None, s1) \<Rightarrow> recv_while s1 | (Some e, s1) \<Rightarrow> raised_in_recv e s1)"
    by simp
  with Decoded r1 show ?thesis
    by (cases "recv_apply st s")
       (simp add: asyncRecvLoop_decoded deliver_def raised_in_recv_running split: option.splits)
next
  case (SocketRaises e)
  with assms raised_done [of 8 e s] show ?thesis
    by (simp add: deliver_def raised_in_recv_running)
next
  case Undecodable
  with assms show ?thesis
    by (simp add: deliver_def asyncRecvLoop_def recv_def recv_body_def finish_recv_done)
qed

section \<open>What the events leave alone\<close>

lemma getitem_str_exn: "getitem st (JStr key) = Inl e \<Longrightarrow> e = KeyError \<or> e = TypeError"
  by (cases st) (auto split: option.splits)

lemma leave_body_keeps:
  assumes "\<And>v s. f (stdout_update v s) = f s"
    and "\<And>v s. f (IS_CLIENT_RUNNING_update v s) = f s"
    and "\<And>v s. f (main_status_update v s) = f s"
  shows "f (leave_body out s) = f s"
  using assms by (cases out) (simp_all add: leave_body_def capture_while_def)

lemma at_head_keeps:
  assumes "\<And>v s. f (it_update v s) = f s"
  shows "f (snd (at_head a env s)) = f s"
  using assms by (simp add: at_head_def Let_def split: sum.splits)

lemma at_pc_keeps:
  assumes A: "\<And>v s. f (AUTHORIZED_ID_update v s) = f s"
    and T: "\<And>v s. f (threads_update v s) = f s"
    and O: "\<And>v s. f (stdout_update v s) = f s"
    and I: "\<And>v s. f (idle_begin_update v s) = f s"
    and G: "(\<forall>v s. f (actuated_update v s) = f s) \<or> virtual a"
  shows "f (snd (at_pc a env pc s)) = f s"
proof (cases pc)
  case (AtDispatch img)
  with dispatch_keeps [of f env img s, OF T] show ?thesis
    by (cases "dispatch env img s") (simp split: option.splits)
next
  case AtActuate
  with G O show ?thesis by auto
next
  case AtBox
  with show_frame_keeps [of f a env s, OF I] I show ?thesis
    by (cases "show_frame a env s") simp
next
  case AtBoxes
  then show ?thesis by (simp split: option.splits)
qed (simp_all add: A O split: sum.splits)

lemma main_step_keeps:
  assumes A: "\<And>v s. f (AUTHORIZED_ID_update v s) = f s"
    and T: "\<And>v s. f (threads_update v s) = f s"
    and O: "\<And>v s. f (stdout_update v s) = f s"
    and I: "\<And>v s. f (idle_begin_update v s) = f s"
    and G: "(\<forall>v s. f (actuated_update v s) = f s) \<or> virtual a"
    and N: "\<And>v s. f (it_update v s) = f s"
    and R: "\<And>v s. f (IS_CLIENT_RUNNING_update v s) = f s"
    and M: "\<And>v s. f (main_status_update v s) = f s"
  shows "f (main_step a env s) = f s"
proof -
  have n: "f (main_next r) = f (snd r)" for r :: "(main_pc + outcome) \<times> 'a state_scheme"
    by (cases r; cases "fst r") (simp_all add: main_next_def M leave_body_keeps [of f, OF O R M])
  show ?thesis
  proof (cases "main_status s")
    case Running
    with n [of "at_head a env s"] at_head_keeps [of f a env s, OF N] show ?thesis
      by (simp add: main_step_def)
  next
    case (Within pc)
    with n [of "at_pc a env pc s"] at_pc_keeps [of f a env pc s, OF A T O I G] show ?thesis
      by (simp add: main_step_def)
  qed (simp_all add: main_step_def)
qed

lemma writes_keeps:
  assumes "\<And>v g. f (id_counter_update v g) = f g"
    and "\<And>v g. f (BOUNDING_BOXES_update v g) = f g"
    and "\<And>v g. f (MAIN_BBOX_update v g) = f g"
    and "\<And>v g. f (CARD2NAME_update v g) = f g"
    and "\<And>v g. f (OPEN_GATE_update v g) = f g"
    and "\<And>v g. f (AUTHORIZED_ID_update v g) = f g"
    and "\<And>v g. f (RECOGNIZED_ID_update v g) = f g"
    and "\<And>v g. f (consecutive_occurrence_update v g) = f g"
    and "i < 8"
  shows "f ((writes ! i) v g) = f g"
proof -
  from \<open>i < 8\<close> have "i \<in> {0, 1, 2, 3} \<or> i \<in> {4, 5, 6, 7}" by auto
  then show ?thesis
    by (elim disjE insertE emptyE) (simp_all add: writes_def assms)
qed

lemma assign_step_keeps:
  assumes V: "\<And>v g. f (id_counter_update v g) = f g"
      "\<And>v g. f (BOUNDING_BOXES_update v g) = f g"
      "\<And>v g. f (MAIN_BBOX_update v g) = f g"
      "\<And>v g. f (CARD2NAME_update v g) = f g"
      "\<And>v g. f (OPEN_GATE_update v g) = f g"
      "\<And>v g. f (AUTHORIZED_ID_update v g) = f g"
      "\<And>v g. f (RECOGNIZED_ID_update v g) = f g"
      "\<And>v g. f (consecutive_occurrence_update v g) = f g"
    and O: "\<And>v g. f (stdout_update v g) = f g"
    and C: "\<And>v g. f (current_timeout_update v g) = f g"
    and R: "\<And>v g. f (recv_status_update v g) = f g"
  shows "f (assign_step st i s) = f s"
proof (cases "i < 8")
  case True
  show ?thesis
  proof (cases "getitem st (JStr (recv_fields ! i))")
    case (Inl e)
    have "f (asyncRecvLoop (SocketRaises e) (s\<lparr> recv_status := Running \<rparr>)) = f (s\<lparr> recv_status := Running \<rparr>)"
      by (rule asyncRecvLoop_keeps) (fact V O C R)+
    with True Inl show ?thesis
      by (simp add: assign_step_def length_recv_fields raised_in_recv_def R)
  next
    case (Inr v)
    with True writes_keeps [of f i v s, OF V True] show ?thesis
      by (simp add: assign_step_def length_recv_fields R)
  qed
next
  case False
  then show ?thesis
    by (simp add: assign_step_def length_recv_fields recv_while_def recv_exit_def R O)
qed

lemma deliver_keeps:
  assumes V: "\<And>v g. f (id_counter_update v g) = f g"
      "\<And>v g. f (BOUNDING_BOXES_update v g) = f g"
      "\<And>v g. f (MAIN_BBOX_update v g) = f g"
      "\<And>v g. f (CARD2NAME_update v g) = f g"
      "\<And>v g. f (OPEN_GATE_update v g) = f g"
      "\<And>v g. f (AUTHORIZED_ID_update v g) = f g"
      "\<And>v g. f (RECOGNIZED_ID_update v g) = f g"
      "\<And>v g. f (consecutive_occurrence_update v g) = f g"
    and O: "\<And>v g. f (stdout_update v g) = f g"
    and C: "\<And>v g. f (current_timeout_update v g) = f g"
    and R: "\<And>v g. f (recv_status_update v g) = f g"
  shows "f (deliver r s) = f s"
proof (cases r)
  case (Decoded st)
  with assign_step_keeps [of f st 0 s, OF V O C R] show ?thesis by (simp add: deliver_def)
next
  case (SocketRaises e)
  have "f (asyncRecvLoop r s) = f s" by (rule asyncRecvLoop_keeps) (fact V O C R)+
  with SocketRaises show ?thesis by (simp add: deliver_def)
next
  case Undecodable
  have "f (asyncRecvLoop r s) = f s" by (rule asyncRecvLoop_keeps) (fact V O C R)+
  with Undecodable show ?thesis by (simp add: deliver_def)
qed

text \<open>What an event of the receive thread, of the main thread, of any thread leaves alone.\<close>

lemma receive_events_keep:
  assumes V: "\<And>v g. f (id_counter_update v g) = f g"
      "\<And>v g. f (BOUNDING_BOXES_update v g) = f g"
      "\<And>v g. f (MAIN_BBOX_update v g) = f g"
      "\<And>v g. f (CARD2NAME_update v g) = f g"
      "\<And>v g. f (OPEN_GATE_update v g) = f g"
      "\<And>v g. f (AUTHORIZED_ID_update v g) = f g"
      "\<And>v g. f (RECOGNIZED_ID_update v g) = f g"
      "\<And>v g. f (consecutive_occurrence_update v g) = f g"
    and O: "\<And>v g. f (stdout_update v g) = f g"
    and C: "\<And>v g. f (current_timeout_update v g) = f g"
    and R: "\<And>v g. f (recv_status_update v g) = f g"
    and ev: "ev = Receive r \<or> ev = Deliver r \<or> ev = Assign"
  shows "f (step a ev s) = f s"
proof -
  have 1: "f (asyncRecvLoop r s) = f s" by (rule asyncRecvLoop_keeps) (fact V O C R)+
  have 2: "f (deliver r s) = f s" by (rule deliver_keeps) (fact V O C R)+
  have 3: "f (assign_step st i s) = f s" for st i by (rule assign_step_keeps) (fact V O C R)+
  from ev show ?thesis
    by (elim disjE) (simp_all add: step_def 1 2 3 split: status.splits recv_pc.splits)
qed

lemma main_events_keep:
  assumes A: "\<And>v s. f (AUTHORIZED_ID_update v s) = f s"
    and T: "\<And>v s. f (threads_update v s) = f s"
    and O: "\<And>v s. f (stdout_update v s) = f s"
    and I: "\<And>v s. f (idle_begin_update v s) = f s"
    and G: "(\<forall>v s. f (actuated_update v s) = f s) \<or> virtual a"
    and N: "\<And>v s. f (it_update v s) = f s"
    and R: "\<And>v s. f (IS_CLIENT_RUNNING_update v s) = f s"
    and M: "\<And>v s. f (main_status_update v s) = f s"
    and ev: "ev = Capture env \<or> ev = Main env"
  shows "f (step a ev s) = f s"
proof -
  have 1: "f (capture a env s) = f s" by (rule capture_keeps) (fact A T O I G N R M)+
  have 2: "f (main_step a env s) = f s" by (rule main_step_keeps) (fact A T O I G N R M)+
  from ev show ?thesis by (elim disjE) (simp_all add: step_def 1 2)
qed

lemma event_cases:
  obtains (main) env where "ev = Capture env \<or> ev = Main env"
  | (recv) r where "ev = Receive r \<or> ev = Deliver r \<or> ev = Assign"
  | (send) n env where "ev = Send n env"
  by (cases ev) auto

section \<open>The timeout counter of the receive loop\<close>

lemma assign_from_exn:
  "fst (assign_from st key upd r) = Some e \<Longrightarrow> fst r = Some e \<or> e = KeyError \<or> e = TypeError"
  by (auto simp: assign_from_def split: prod.splits option.splits sum.splits dest: getitem_str_exn)

lemma recv_apply_exn: "fst (recv_apply st g) = Some e \<Longrightarrow> e = KeyError \<or> e = TypeError"
  unfolding recv_apply_def
  by (auto dest!: assign_from_exn)

lemma recv_again: "fst (recv r s) = Some ZmqAgain \<longleftrightarrow> r = SocketRaises ZmqAgain"
proof (cases r)
  case (Decoded st)
  obtain x s1 where a: "recv_apply st s = (x, s1)" by (cases "recv_apply st s")
  with recv_apply_exn [of st s] have "x \<noteq> Some ZmqAgain" by auto
  with a Decoded show ?thesis
    by (auto simp: recv_def recv_body_def split: option.splits)
qed (auto simp: recv_def recv_body_def)

lemma asyncRecvLoop_counter:
  "current_timeout (asyncRecvLoop r s) = current_timeout s + (if r = SocketRaises ZmqAgain then 1 else 0)"
proof -
  obtain x s1 where a: "recv r s = (x, s1)" by (cases "recv r s")
  have "current_timeout (snd (recv r s)) = current_timeout s"
    by (rule recv_keeps) simp_all
  with a have c: "current_timeout s1 = current_timeout s" by simp
  from a recv_again [of r s] have "x = Some ZmqAgain \<longleftrightarrow> r = SocketRaises ZmqAgain" by simp
  with a c show ?thesis
    by (auto simp: asyncRecvLoop_def recv_while_def recv_exit_def split: option.splits)
qed

lemma asyncRecvLoop_timeout:
  "recv_status (asyncRecvLoop (SocketRaises ZmqAgain) s) =
     (if IS_CLIENT_RUNNING s \<and> current_timeout s + 1 < max_timeout then recv_status s else Stopped)"
  by (simp add: asyncRecvLoop_def recv_def recv_body_def recv_while_def recv_exit_def)

lemma assign_step_counter: "current_timeout (assign_step st i s) = current_timeout s"
proof (cases "i < 8")
  case True
  show ?thesis
  proof (cases "getitem st (JStr (recv_fields ! i))")
    case (Inl e)
    with getitem_str_exn have "e \<noteq> ZmqAgain" by fastforce
    with True Inl show ?thesis
      by (simp add: assign_step_def length_recv_fields raised_in_recv_def asyncRecvLoop_counter)
  next
    case (Inr v)
    have "current_timeout ((writes ! i) v s) = current_timeout s"
      by (rule writes_keeps) (simp_all add: True)
    with True Inr show ?thesis
      by (simp add: assign_step_def length_recv_fields)
  qed
next
  case False
  then show ?thesis
    by (simp add: assign_step_def length_recv_fields recv_while_def recv_exit_def)
qed

lemma deliver_counter:
  "current_timeout (deliver r s) = current_timeout s + (if r = SocketRaises ZmqAgain then 1 else 0)"
  by (cases r) (simp_all add: deliver_def asyncRecvLoop_counter assign_step_counter)

lemma step_counter:
  "current_timeout (step a ev s) =
     current_timeout s +
       (if recv_status s = Running
           \<and> (ev = Receive (SocketRaises ZmqAgain) \<or> ev = Deliver (SocketRaises ZmqAgain))
        then 1 else 0)"
proof (cases ev rule: event_cases)
  case (main env)
  have "current_timeout (step a ev s) = current_timeout s"
    by (rule main_events_keep [OF _ _ _ _ _ _ _ _ main]) simp_all
  with main show ?thesis by auto
next
  case (recv r)
  then show ?thesis
    by (elim disjE)
       (simp_all add: step_def asyncRecvLoop_counter deliver_counter assign_step_counter
          split: status.splits recv_pc.splits)
next
  case (send n env)
  have "current_timeout (send_thread n env s) = current_timeout s"
    by (rule send_thread_keeps) simp_all
  with send show ?thesis by (simp add: step_def)
qed

lemma run_counter_mono: "current_timeout s \<le> current_timeout (run a evs s)"
proof (induction evs arbitrary: s)
  case Nil
  show ?case by simp
next
  case (Cons ev evs)
  have "current_timeout s \<le> current_timeout (step a ev s)" by (simp add: step_counter)
  also have "\<dots> \<le> current_timeout (run a evs (step a ev s))" by (rule Cons.IH)
  finally show ?case by simp
qed

lemma step_recv_stopped: "recv_status s = Stopped \<Longrightarrow> recv_status (step a ev s) = Stopped"
proof (cases ev rule: event_cases)
  case (main env)
  have "recv_status (step a ev s) = recv_status s"
    by (rule main_events_keep [OF _ _ _ _ _ _ _ _ main]) simp_all
  moreover assume "recv_status s = Stopped"
  ultimately show ?thesis by simp
next
  case (recv r)
  assume "recv_status s = Stopped"
  with recv show ?thesis by (elim disjE) (simp_all add: step_def)
next
  case (send n env)
  have "recv_status (send_thread n env s) = recv_status s"
    by (rule send_thread_keeps) simp_all
  moreover assume "recv_status s = Stopped"
  ultimately show ?thesis using send by (simp add: step_def)
qed

lemma step_bounded: "bounded s \<Longrightarrow> bounded (step a ev s)"
proof -
  assume b: "bounded s"
  show ?thesis
  proof (cases "recv_status s = Running
      \<and> (ev = Receive (SocketRaises ZmqAgain) \<or> ev = Deliver (SocketRaises ZmqAgain))")
    case True
    with b have "current_timeout s < max_timeout" by (auto simp: bounded_def)
    with True show ?thesis
      by (auto simp: bounded_def step_def deliver_def asyncRecvLoop_counter asyncRecvLoop_timeout)
  next
    case False
    then have "current_timeout (step a ev s) = current_timeout s" by (simp add: step_counter)
    with b step_recv_stopped [of s a ev] show ?thesis by (auto simp: bounded_def)
  qed
qed

lemma run_bounded: "bounded s \<Longrightarrow> bounded (run a evs s)"
  by (induction evs arbitrary: s) (simp_all add: step_bounded)

text \<open>No action of the capture loop reads where the receive loop stands or its counter.\<close>

lemma read_card_receive_side:
  "read_card a env (receive_side x n s) = map_sum id (receive_side x n) (read_card a env s)"
  by (simp add: read_card_def receive_side_def split: sum.splits)

lemma dispatch_receive_side:
  "dispatch env img (receive_side x n s) = map_prod id (receive_side x n) (dispatch env img s)"
  by (simp add: dispatch_def receive_side_def split: option.splits)

lemma open_gate_receive_side:
  "open_gate a env (receive_side x n s) = map_prod id (receive_side x n) (open_gate a env s)"
  by (simp add: open_gate_def receive_side_def Let_def split: sum.splits)

lemma show_frame_receive_side:
  "show_frame a env (receive_side x n s) = map_prod id (receive_side x n) (show_frame a env s)"
  by (simp add: show_frame_def receive_side_def Let_def split: option.splits)

lemma tick_receive_side:
  "tick a env (receive_side x n s) = map_prod id (receive_side x n) (tick a env s)"
  by (simp add: tick_def read_card_receive_side dispatch_receive_side open_gate_receive_side
        show_frame_receive_side split: sum.splits prod.splits option.splits)

lemma leave_body_receive_side:
  "leave_body out (receive_side x n s) = receive_side x n (leave_body out s)"
  by (cases out) (simp_all add: leave_body_def capture_while_def receive_side_def)

lemma capture_receive_side: "capture a env (receive_side x n s) = receive_side x n (capture a env s)"
proof -
  have "(receive_side x n s)\<lparr> it := it (receive_side x n s) + 1 \<rparr> = receive_side x n (s\<lparr> it := it s + 1 \<rparr>)"
    by (simp add: receive_side_def)
  then show ?thesis
    by (cases "tick a env (s\<lparr> it := it s + 1 \<rparr>)")
       (simp add: capture_def tick_receive_side leave_body_receive_side)
qed

lemma at_head_receive_side:
  "at_head a env (receive_side x n s) = map_prod id (receive_side x n) (at_head a env s)"
  by (simp add: at_head_def receive_side_def Let_def split: sum.splits)

lemma at_pc_receive_side:
  "at_pc a env pc (receive_side x n s) = map_prod id (receive_side x n) (at_pc a env pc s)"
proof (cases pc)
  case (AtDispatch img)
  then show ?thesis
    by (cases "dispatch env img s") (simp add: dispatch_receive_side split: option.splits)
next
  case AtBox
  then show ?thesis
    by (cases "show_frame a env s") (simp add: show_frame_receive_side, simp add: receive_side_def)
qed (simp_all add: receive_side_def split: sum.splits option.splits)

lemma main_next_receive_side:
  "main_next (map_prod id (receive_side x n) r) = receive_side x n (main_next r)"
proof (cases r)
  case (Pair p s)
  have "(receive_side x n s)\<lparr> main_status := y \<rparr> = receive_side x n (s\<lparr> main_status := y \<rparr>)" for y
    by (simp add: receive_side_def)
  with Pair show ?thesis
    by (cases p) (simp_all add: main_next_def leave_body_receive_side)
qed

lemma main_step_receive_side: "main_step a env (receive_side x n s) = receive_side x n (main_step a env s)"
proof -
  have m: "main_status (receive_side x n s) = main_status s" by (simp add: receive_side_def)
  show ?thesis
    by (cases "main_status s")
       (simp_all add: main_step_def m at_head_receive_side at_pc_receive_side main_next_receive_side)
qed

lemma main_events_receive_side:
  "ev = Capture env \<or> ev = Main env \<Longrightarrow>
   step a ev (receive_side x n s) = receive_side x n (step a ev s)"
  by (auto simp: step_def capture_receive_side main_step_receive_side) (simp_all add: receive_side_def)

text \<open>
  C3, as the code has it. The counter counts every timeout since the receive loop
  started: over any run it never goes down, an iteration of the loop adds one exactly when
  the receive timed out and leaves it alone otherwise (a successful receive included), and
  the loop stops at the timeout that brings the count to the bound.
\<close>

theorem timeout_counter_counts_all:
  "current_timeout s \<le> current_timeout (run a evs s)
   \<and> (recv_status s = Running \<longrightarrow>
        current_timeout (step a (Receive r) s) =
          current_timeout s + (if r = SocketRaises ZmqAgain then 1 else 0))
   \<and> (recv_status s = Running \<longrightarrow>
        recv_status (step a (Receive (SocketRaises ZmqAgain)) s) =
          (if IS_CLIENT_RUNNING s \<and> current_timeout s + 1 < max_timeout then Running else Stopped))"
  by (simp add: run_counter_mono step_counter) (simp add: step_def asyncRecvLoop_timeout)

theorem timeout_counter_counts_all_witness:
  "recv_status (started 0) = Running
   \<and> current_timeout (started 0) \<le> current_timeout (run (default_args []) (timeouts 3) (started 0))
   \<and> current_timeout (step (default_args []) (Receive (Decoded (reply False JNull))) (started 0)) = 0
   \<and> current_timeout (step (default_args []) (Receive (SocketRaises ZmqAgain)) (started 0)) = 1
   \<and> recv_status (step (default_args []) (Receive (SocketRaises ZmqAgain)) (started 0)) = Running"
  using timeout_counter_counts_all [of "started 0" "default_args []" "timeouts 3" "Decoded (reply False JNull)"]
    timeout_counter_counts_all [of "started 0" "default_args []" "timeouts 3" "SocketRaises ZmqAgain"]
  by (simp add: started_def max_timeout_def)

text \<open>
  C3 as stated fails: after a timeout and then a complete message the counter is 1, not 0;
  98 further timeouts leave the loop running and the 99th ends it, although no 100
  timeouts came in a row.
\<close>

theorem timeout_counter_not_reset:
  "current_timeout (run (default_args [])
       [Receive (SocketRaises ZmqAgain), Receive (Decoded (reply False JNull))] (started 0)) = 1
   \<and> recv_status (run (default_args [])
       (Receive (SocketRaises ZmqAgain) # Receive (Decoded (reply False JNull)) # timeouts 98) (started 0)) = Running
   \<and> recv_status (run (default_args [])
       (Receive (SocketRaises ZmqAgain) # Receive (Decoded (reply False JNull)) # timeouts 99) (started 0)) = Stopped"
  by code_simp

section \<open>After the last timeout\<close>

lemma after_gate_keeps:
  assumes O: "\<And>v s. f (stdout_update v s) = f s"
    and G: "\<And>v s. f (actuated_update v s) = f s"
    and I: "\<And>v s. f (idle_begin_update v s) = f s"
    and R: "\<And>v s. f (IS_CLIENT_RUNNING_update v s) = f s"
    and M: "\<And>v s. f (main_status_update v s) = f s"
  shows "f (after_gate a env s) = f s"
proof -
  have l: "f (leave_body out t) = f t" for out t
    by (rule leave_body_keeps) (fact O R M)+
  have b: "f (after_box a env t) = f t" for t
    using show_frame_keeps [of f a env t, OF I]
    by (cases "show_frame a env t") (simp add: after_box_def l)
  show ?thesis
    using open_gate_keeps [of f a env s, OF O G]
    by (cases "open_gate a env s") (simp add: after_gate_def l b split: option.splits)
qed

text \<open>An iteration with a working camera, card reader and thread library hands a new
  frame, mirrored, to a send thread, with the identity as it is after the iteration.\<close>

lemma capture_dispatches:
  assumes c: "cap env = CapResult True (Some i)" and p: "concat i \<noteq> []"
    and r: "\<not> virtual a \<longrightarrow> (\<exists>cd. readCardID env = Inr cd)"
    and t: "thread_start env = None"
  shows "it (capture a env s) = it s + 1"
    and "threads (capture a env s) = threads s @ [(map rev i, AUTHORIZED_ID (capture a env s))]"
proof -
  let ?s = "s\<lparr> it := it s + 1 \<rparr>"
  from c p have img: "read_image env = Inr (Some (map rev i))"
    by (simp add: read_image_def cv2_flip_def)
  from r obtain s1 where s1: "read_card a env ?s = Inr s1"
    by (cases "virtual a"; cases "readCardID env") (auto simp: read_card_def)
  have k: "threads s1 = threads ?s" "it s1 = it ?s"
    by (rule read_card_keeps [OF _ s1]; simp)+
  let ?s2 = "s1\<lparr> threads := threads s1 @ [(map rev i, AUTHORIZED_ID s1)] \<rparr>"
  from img s1 t have e: "capture a env s = after_gate a env ?s2"
    by (simp add: capture_after_dispatch after_dispatch_def dispatch_def)
  have "it (after_gate a env ?s2) = it ?s2" by (rule after_gate_keeps) simp_all
  with e k show "it (capture a env s) = it s + 1" by simp
  have "threads (after_gate a env ?s2) = threads ?s2" by (rule after_gate_keeps) simp_all
  moreover have "AUTHORIZED_ID (after_gate a env ?s2) = AUTHORIZED_ID ?s2" by (rule after_gate_keeps) simp_all
  ultimately show "threads (capture a env s) = threads s @ [(map rev i, AUTHORIZED_ID (capture a env s))]"
    using e k by simp
qed

text \<open>
  C1, as the code has it. In a run from the start in which the counter has reached the
  bound, the receive loop has stopped and whatever the socket delivers afterwards changes
  nothing. No action of the receive thread touches the status of the capture loop or
  \<^verbatim>\<open>IS_CLIENT_RUNNING\<close>, and no action of the capture loop looks at the receive loop or at
  the counter: it does the same whatever they are. So a capture loop that is running goes
  on as before: an iteration with a working camera, card reader and thread library counts
  one more frame and hands that frame to a new send thread.
\<close>

theorem receive_loop_gives_up_alone:
  "current_timeout (run a evs (started t)) = max_timeout \<Longrightarrow>
     recv_status (run a evs (started t)) = Stopped
     \<and> (ev = Receive r \<or> ev = Deliver r \<or> ev = Assign \<longrightarrow>
          step a ev (run a evs (started t)) = run a evs (started t))
     \<and> (ev = Receive r \<or> ev = Deliver r \<or> ev = Assign \<longrightarrow>
          main_status (step a ev s) = main_status s
          \<and> IS_CLIENT_RUNNING (step a ev s) = IS_CLIENT_RUNNING s)
     \<and> (ev' = Capture env \<or> ev' = Main env \<longrightarrow>
          step a ev' (s\<lparr> recv_status := x, current_timeout := n \<rparr>)
            = (step a ev' s)\<lparr> recv_status := x, current_timeout := n \<rparr>)
     \<and> (main_status s = Running \<longrightarrow> cap env = CapResult True (Some i) \<longrightarrow> concat i \<noteq> [] \<longrightarrow>
          (\<not> virtual a \<longrightarrow> (\<exists>cd. readCardID env = Inr cd)) \<longrightarrow> thread_start env = None \<longrightarrow>
            it (step a (Capture env) s) = it s + 1
            \<and> threads (step a (Capture env) s)
                = threads s @ [(map rev i, AUTHORIZED_ID (step a (Capture env) s))])"
proof (intro conjI impI)
  assume c: "current_timeout (run a evs (started t)) = max_timeout"
  have "bounded (started t)" by (simp add: bounded_def started_def max_timeout_def)
  then have "bounded (run a evs (started t))" by (rule run_bounded)
  with c show stopped: "recv_status (run a evs (started t)) = Stopped" by (simp add: bounded_def)
  show "step a ev (run a evs (started t)) = run a evs (started t)"
    if "ev = Receive r \<or> ev = Deliver r \<or> ev = Assign"
    using that stopped by (elim disjE) (simp_all add: step_def)
  show "main_status (step a ev s) = main_status s"
    if ev: "ev = Receive r \<or> ev = Deliver r \<or> ev = Assign"
    by (rule receive_events_keep [OF _ _ _ _ _ _ _ _ _ _ _ ev]) simp_all
  show "IS_CLIENT_RUNNING (step a ev s) = IS_CLIENT_RUNNING s"
    if ev: "ev = Receive r \<or> ev = Deliver r \<or> ev = Assign"
    by (rule receive_events_keep [OF _ _ _ _ _ _ _ _ _ _ _ ev]) simp_all
  show "step a ev' (s\<lparr> recv_status := x, current_timeout := n \<rparr>)
            = (step a ev' s)\<lparr> recv_status := x, current_timeout := n \<rparr>"
    if "ev' = Capture env \<or> ev' = Main env"
    using main_events_receive_side [OF that, of a x n s] by (simp add: receive_side_def)
next
  assume "main_status s = Running" "cap env = CapResult True (Some i)" "concat i \<noteq> []"
    "\<not> virtual a \<longrightarrow> (\<exists>cd. readCardID env = Inr cd)" "thread_start env = None"
  then show "it (step a (Capture env) s) = it s + 1"
    and "threads (step a (Capture env) s) = threads s @ [(map rev i, AUTHORIZED_ID (step a (Capture env) s))]"
    by (simp_all add: step_def capture_dispatches)
qed

theorem receive_loop_gives_up_alone_witness:
  "current_timeout (run (default_args []) (timeouts 100) (started 0)) = max_timeout
   \<and> recv_status (run (default_args []) (timeouts 100) (started 0)) = Stopped
   \<and> step (default_args []) (Receive (Decoded (reply True JNull))) (run (default_args []) (timeouts 100) (started 0))
       = run (default_args []) (timeouts 100) (started 0)
   \<and> main_status (run (default_args []) (timeouts 100) (started 0)) = Running
   \<and> it (step (default_args []) (Capture (frame_at 200)) (run (default_args []) (timeouts 100) (started 0))) = 1
   \<and> threads (step (default_args []) (Capture (frame_at 200)) (run (default_args []) (timeouts 100) (started 0)))
       = [([[1, 0], [3, 2]], JStr ''A'')]"
proof -
  let ?s = "run (default_args []) (timeouts 100) (started 0)"
  have c: "current_timeout ?s = max_timeout" by code_simp
  have m: "main_status ?s = Running" "it ?s = 0" "threads ?s = []"
    "AUTHORIZED_ID (step (default_args []) (Capture (frame_at 200)) ?s) = JStr ''A''"
    by code_simp+
  have e: "cap (frame_at 200) = CapResult True (Some [[0, 1], [2, 3]])" "concat [[0, 1], [2, 3::nat]] \<noteq> []"
    "\<not> virtual (default_args []) \<longrightarrow> (\<exists>cd. readCardID (frame_at 200) = Inr cd)"
    "thread_start (frame_at 200) = None"
    by (simp_all add: frame_at_def default_args_def)
  from receive_loop_gives_up_alone [OF c, of "Receive (Decoded (reply True JNull))" "Decoded (reply True JNull)"
      ?s _ "frame_at 200" _ _ "[[0, 1], [2, 3]]"] c m e
  show ?thesis by simp
qed

text \<open>
  C1 as stated fails: after 100 timeouts the receive loop has stopped, and the next frame
  is still captured and dispatched by a capture loop that goes on running.
\<close>

theorem capture_goes_on_after_timeouts:
  "current_timeout (run (default_args []) (timeouts 100) (started 0)) = 100
   \<and> recv_status (run (default_args []) (timeouts 100) (started 0)) = Stopped
   \<and> main_status (run (default_args []) (timeouts 100 @ [Capture (frame_at 200)]) (started 0)) = Running
   \<and> IS_CLIENT_RUNNING (run (default_args []) (timeouts 100 @ [Capture (frame_at 200)]) (started 0))
   \<and> it (run (default_args []) (timeouts 100 @ [Capture (frame_at 200)]) (started 0)) = 1
   \<and> threads (run (default_args []) (timeouts 100 @ [Capture (frame_at 200)]) (started 0))
        = [([[1, 0], [3, 2]], JStr ''A'')]"
  by code_simp

section \<open>Applying a message\<close>

lemma recv_decoded: "snd (recv (Decoded st) s) = snd (recv_apply st s) \<and> fst (recv (Decoded st) s) = fst (recv_apply st s)"
proof (cases "recv_apply st s")
  case (Pair x s1)
  with recv_apply_exn [of st s] have "x = None \<or> x = Some KeyError \<or> x = Some TypeError" by auto
  with Pair show ?thesis by (auto simp: recv_def recv_body_def)
qed

lemma getitem_not_dict:
  "\<forall>d. st \<noteq> JDict d \<Longrightarrow> getitem st (JStr key) = Inl TypeError"
  by (cases st) simp_all

lemma recv_apply_not_dict:
  "\<forall>d. st \<noteq> JDict d \<Longrightarrow> recv_apply st g = (Some TypeError, g)"
  by (simp add: recv_apply_def assign_from_def getitem_not_dict)

lemma recv_apply_dict:
  assumes "i < length recv_fields"
    and "\<forall>key\<in>set (take i recv_fields). map_of d key \<noteq> None"
    and "map_of d (recv_fields ! i) = None"
  shows "fst (recv_apply (JDict d) g) = Some KeyError"
    and "session_variables (snd (recv_apply (JDict d) g)) =
           map (\<lambda>key. the (map_of d key)) (take i recv_fields) @ drop i (session_variables g)"
proof -
  from assms(1) have "i < 8" by (simp add: recv_fields_def)
  then have "i \<in> {0, 1, 2, 3} \<or> i \<in> {4, 5, 6, 7}" by auto
  then have "fst (recv_apply (JDict d) g) = Some KeyError
     \<and> session_variables (snd (recv_apply (JDict d) g)) =
           map (\<lambda>key. the (map_of d key)) (take i recv_fields) @ drop i (session_variables g)"
    using assms(2,3)
    by (elim disjE insertE emptyE)
       (auto simp: recv_apply_def assign_from_def recv_fields_def session_variables_def)
  then show "fst (recv_apply (JDict d) g) = Some KeyError"
    and "session_variables (snd (recv_apply (JDict d) g)) =
           map (\<lambda>key. the (map_of d key)) (take i recv_fields) @ drop i (session_variables g)"
    by simp_all
qed






text \<open>
  C6, as the code has it. When the socket raises, the text is not JSON, or it decodes to
  something other than an object, the eight variables are as before. When a decoded
  object lacks a field, \<^verbatim>\<open>recv\<close> raises \<^verbatim>\<open>KeyError\<close> at the first missing one: the variables
  of the fields before it hold the values of the message, the others are as before.
\<close>

theorem recv_failure_state:
  "((r = Undecodable \<or> r = SocketRaises e \<or> (\<exists>st. r = Decoded st \<and> (\<forall>d. st \<noteq> JDict d))) \<longrightarrow>
       session_variables (snd (recv r s)) = session_variables s)
   \<and> (i < length recv_fields \<longrightarrow> (\<forall>key\<in>set (take i recv_fields). map_of d key \<noteq> None) \<longrightarrow>
        map_of d (recv_fields ! i) = None \<longrightarrow>
          fst (recv (Decoded (JDict d)) s) = Some KeyError
          \<and> session_variables (snd (recv (Decoded (JDict d)) s)) =
              map (\<lambda>key. the (map_of d key)) (take i recv_fields) @ drop i (session_variables s))"
proof (intro conjI impI)
  assume "r = Undecodable \<or> r = SocketRaises e \<or> (\<exists>st. r = Decoded st \<and> (\<forall>d. st \<noteq> JDict d))"
  then show "session_variables (snd (recv r s)) = session_variables s"
    by (auto simp: recv_def recv_body_def session_variables_def recv_apply_not_dict)
next
  assume a: "i < length recv_fields" "\<forall>key\<in>set (take i recv_fields). map_of d key \<noteq> None"
    "map_of d (recv_fields ! i) = None"
  from recv_apply_dict(1) [OF a] show "fst (recv (Decoded (JDict d)) s) = Some KeyError"
    by (simp add: recv_decoded)
  from recv_apply_dict(2) [OF a]
  show "session_variables (snd (recv (Decoded (JDict d)) s)) =
          map (\<lambda>key. the (map_of d key)) (take i recv_fields) @ drop i (session_variables s)"
    by (simp add: recv_decoded)
qed

theorem recv_failure_state_witness:
  "2 < length recv_fields
   \<and> map_of [(''id_counter'', JInt 1), (''BOUNDING_BOXES'', JInt 2), (''CARD2NAME'', JInt 4)] (recv_fields ! 2) = None
   \<and> fst (recv (Decoded (JDict [(''id_counter'', JInt 1), (''BOUNDING_BOXES'', JInt 2), (''CARD2NAME'', JInt 4)])) (started 0)) = Some KeyError
   \<and> session_variables (snd (recv (Decoded (JDict [(''id_counter'', JInt 1), (''BOUNDING_BOXES'', JInt 2), (''CARD2NAME'', JInt 4)])) (started 0)))
        = [JInt 1, JInt 2, JNull, JDict [], JBool False, JNull, JNull, JInt 0]
   \<and> session_variables (snd (recv Undecodable (started 0))) = session_variables (started 0)"
  using recv_failure_state [of Undecodable ZmqAgain "started 0" 2
      "[(''id_counter'', JInt 1), (''BOUNDING_BOXES'', JInt 2), (''CARD2NAME'', JInt 4)]"]
  by (simp add: recv_fields_def session_variables_def started_def)

text \<open>
  C6 as stated fails: a message with \<^verbatim>\<open>id_counter\<close> alone makes \<^verbatim>\<open>recv\<close> raise \<^verbatim>\<open>KeyError\<close>
  with \<^verbatim>\<open>id_counter\<close> already replaced.
\<close>

theorem partial_update_visible:
  "fst (recv (Decoded (JDict [(''id_counter'', JList [JList [JStr ''A'', JInt 1]])])) (started 0)) = Some KeyError
   \<and> session_variables (snd (recv (Decoded (JDict [(''id_counter'', JList [JList [JStr ''A'', JInt 1]])])) (started 0)))
       = [JList [JList [JStr ''A'', JInt 1]], JNull, JNull, JDict [], JBool False, JNull, JNull, JInt 0]
   \<and> session_variables (started 0) = [JNull, JNull, JNull, JDict [], JBool False, JNull, JNull, JInt 0]"
  by (simp add: client_defs session_variables_def)

section \<open>The shape of the messages\<close>









section \<open>The authorized identity\<close>














section \<open>When the capture loop ends\<close>
















section \<open>A send that fails\<close>

lemma read_card_hide:
  "read_card a env (hide_sends s) = map_sum id hide_sends (read_card a env s)"
  by (simp add: read_card_def hide_sends_def split: sum.splits)

lemma dispatch_hide:
  "fst (dispatch env img (hide_sends s)) = fst (dispatch env img s)
   \<and> hide_sends (snd (dispatch env img (hide_sends s))) = hide_sends (snd (dispatch env img s))"
  by (simp add: dispatch_def hide_sends_def split: option.splits)

lemma open_gate_hide:
  "fst (open_gate a env (hide_sends s)) = fst (open_gate a env s)
   \<and> hide_sends (snd (open_gate a env (hide_sends s))) = hide_sends (snd (open_gate a env s))"
  by (simp add: open_gate_def hide_sends_def Let_def split: sum.splits)

lemma show_frame_hide:
  "fst (show_frame a env (hide_sends s)) = fst (show_frame a env s)
   \<and> hide_sends (snd (show_frame a env (hide_sends s))) = hide_sends (snd (show_frame a env s))"
  by (simp add: show_frame_def hide_sends_def Let_def split: option.splits)

lemma hide_cong:
  assumes "\<And>s. fst (g (hide_sends s)) = fst (g s) \<and> hide_sends (snd (g (hide_sends s))) = hide_sends (snd (g s))"
    and "hide_sends s = hide_sends s'"
  shows "fst (g s) = fst (g s')" and "hide_sends (snd (g s)) = hide_sends (snd (g s'))"
proof -
  from assms(1) [of s] assms(1) [of s'] assms(2)
  show "fst (g s) = fst (g s')" and "hide_sends (snd (g s)) = hide_sends (snd (g s'))"
    by simp_all
qed

lemma hide_idem: "hide_sends (hide_sends s) = hide_sends s"
  by (simp add: hide_sends_def)

lemma tick_hide:
  "fst (tick a env (hide_sends s)) = fst (tick a env s)
   \<and> hide_sends (snd (tick a env (hide_sends s))) = hide_sends (snd (tick a env s))"
proof (cases "read_image env")
  case (Inl e)
  then show ?thesis by (simp add: tick_def hide_idem)
next
  case img: (Inr img)
  show ?thesis
  proof (cases "read_card a env s")
    case (Inl e)
    with img read_card_hide [of a env s] show ?thesis by (simp add: tick_def hide_idem)
  next
    case s1: (Inr s1)
    with read_card_hide [of a env s] have h1: "read_card a env (hide_sends s) = Inr (hide_sends s1)" by simp
    obtain r2 s2 where d: "dispatch env img s1 = (r2, s2)" by (cases "dispatch env img s1")
    obtain r2' s2' where d': "dispatch env img (hide_sends s1) = (r2', s2')"
      by (cases "dispatch env img (hide_sends s1)")
    from dispatch_hide [of env img s1] d d' have e2: "r2' = r2" "hide_sends s2' = hide_sends s2" by simp_all
    obtain r3 s3 where g: "open_gate a env s2 = (r3, s3)" by (cases "open_gate a env s2")
    obtain r3' s3' where g': "open_gate a env s2' = (r3', s3')" by (cases "open_gate a env s2'")
    from hide_cong [of "open_gate a env", OF open_gate_hide e2(2)] g g'
    have e3: "r3' = r3" "hide_sends s3' = hide_sends s3" by simp_all
    from hide_cong [of "show_frame a env", OF show_frame_hide e3(2)]
    have e4: "fst (show_frame a env s3') = fst (show_frame a env s3)"
      "hide_sends (snd (show_frame a env s3')) = hide_sends (snd (show_frame a env s3))" by simp_all
    from img s1 h1 d d' g g' e2 e3 e4 show ?thesis
      by (cases r2; cases r3) (simp_all add: tick_def)
  qed
qed

lemma hide_update:
  "hide_sends (main_status_update f s) = main_status_update f (hide_sends s)"
  "hide_sends (IS_CLIENT_RUNNING_update g s) = IS_CLIENT_RUNNING_update g (hide_sends s)"
  "hide_sends (stdout_update h s) = hide_sends s"
  "hide_sends (threads_update h' s) = hide_sends s"
  "hide_sends (wire_update h'' s) = hide_sends s"
  "hide_sends (it_update j s) = it_update j (hide_sends s)"
  by (simp_all add: hide_sends_def)

lemma hide_select:
  "IS_CLIENT_RUNNING (hide_sends s) = IS_CLIENT_RUNNING s"
  "main_status (hide_sends s) = main_status s"
  "it (hide_sends s) = it s"
  by (simp_all add: hide_sends_def)

lemma capture_hide: "hide_sends (capture a env (hide_sends s)) = hide_sends (capture a env s)"
proof -
  let ?s = "s\<lparr> it := it s + 1 \<rparr>"
  have u: "(hide_sends s)\<lparr> it := it (hide_sends s) + 1 \<rparr> = hide_sends ?s"
    by (simp add: hide_sends_def)
  obtain out s1 where t: "tick a env ?s = (out, s1)" by (cases "tick a env ?s")
  obtain out' s1' where t': "tick a env (hide_sends ?s) = (out', s1')"
    by (cases "tick a env (hide_sends ?s)")
  from tick_hide [of a env ?s] t t'
  have e: "out' = out" "hide_sends s1' = hide_sends s1" by simp_all
  from arg_cong [OF e(2), of IS_CLIENT_RUNNING]
  have f: "IS_CLIENT_RUNNING s1' = IS_CLIENT_RUNNING s1" by (simp add: hide_select)
  have "hide_sends (capture a env (hide_sends s)) = hide_sends (capture a env s)"
    unfolding capture_def u t t' e(1)
    by (cases out) (simp_all add: leave_body_def capture_while_def hide_update e(2) f)
  then show ?thesis .
qed

lemma step_capture_hide:
  "hide_sends s = hide_sends s' \<Longrightarrow>
   hide_sends (step a (Capture env) s) = hide_sends (step a (Capture env) s')"
proof -
  assume h: "hide_sends s = hide_sends s'"
  from arg_cong [OF h, of main_status] have m: "main_status s = main_status s'" by (simp add: hide_select)
  from capture_hide [of a env s] capture_hide [of a env s'] h
  have "hide_sends (capture a env s) = hide_sends (capture a env s')" by simp
  with m h show ?thesis by (simp add: step_def)
qed

text \<open>
  C9. When the socket raises in a send thread, nothing reaches the socket and the thread
  is gone, so the frame is dropped and never sent again; the failure is reported, by the
  \<^verbatim>\<open>print\<close> of \<^verbatim>\<open>send\<close> for a \<^verbatim>\<open>RuntimeError\<close> and by the interpreter's report of the
  exception that ends the thread otherwise; both loops and \<^verbatim>\<open>IS_CLIENT_RUNNING\<close> are as
  they were; and the next iteration of the capture loop does to everything but the
  output and the send threads what it would have done had the send thread not run.
\<close>

theorem failed_send_is_dropped:
  "n < length (threads s) \<Longrightarrow> socket_send env = Some e \<Longrightarrow>
     wire (step a (Send n env) s) = wire s
     \<and> threads (step a (Send n env) s) = take n (threads s) @ drop (Suc n) (threads s)
     \<and> stdout (step a (Send n env) s) =
         stdout s @ (if isRuntimeError e
                     then [SendError e, SendImage (length (fst (threads s ! n))) (snd (threads s ! n))]
                     else [Traceback e])
     \<and> main_status (step a (Send n env) s) = main_status s
     \<and> recv_status (step a (Send n env) s) = recv_status s
     \<and> IS_CLIENT_RUNNING (step a (Send n env) s) = IS_CLIENT_RUNNING s
     \<and> hide_sends (step a (Capture cenv) (step a (Send n env) s)) = hide_sends (step a (Capture cenv) s)"
proof -
  assume n: "n < length (threads s)" and f: "socket_send env = Some e"
  have h: "hide_sends (send_thread n env s) = hide_sends s"
    by (rule send_thread_keeps) (simp_all add: hide_update)
  have "hide_sends (step a (Capture cenv) (send_thread n env s)) = hide_sends (step a (Capture cenv) s)"
    using h by (rule step_capture_hide)
  moreover have "main_status (send_thread n env s) = main_status s"
    by (rule send_thread_keeps) simp_all
  moreover have "recv_status (send_thread n env s) = recv_status s"
    by (rule send_thread_keeps) simp_all
  moreover have "IS_CLIENT_RUNNING (send_thread n env s) = IS_CLIENT_RUNNING s"
    by (rule send_thread_keeps) simp_all
  moreover from n f have "wire (send_thread n env s) = wire s"
    "threads (send_thread n env s) = take n (threads s) @ drop (Suc n) (threads s)"
    "stdout (send_thread n env s) =
         stdout s @ (if isRuntimeError e
                     then [SendError e, SendImage (length (fst (threads s ! n))) (snd (threads s ! n))]
                     else [Traceback e])"
    by (simp_all add: send_thread_def send_def Let_def split: prod.splits)
  ultimately show ?thesis by (simp add: step_def)
qed

theorem failed_send_is_dropped_witness:
  "threads (step (default_args []) (Capture (frame_at 1)) (started 0)) = [([[1, 0], [3, 2]], JStr ''A'')]
   \<and> wire (run (default_args []) [Capture (frame_at 1), Send 0 \<lparr> jpg_as_text = ''/9j/'', socket_send = Some ZmqAgain \<rparr>] (started 0)) = []
   \<and> threads (run (default_args []) [Capture (frame_at 1), Send 0 \<lparr> jpg_as_text = ''/9j/'', socket_send = Some ZmqAgain \<rparr>] (started 0)) = []
   \<and> stdout (run (default_args []) [Capture (frame_at 1), Send 0 \<lparr> jpg_as_text = ''/9j/'', socket_send = Some ZmqAgain \<rparr>] (started 0))
        = [BeginCapture, Traceback ZmqAgain]
   \<and> stdout (run (default_args []) [Capture (frame_at 1), Send 0 \<lparr> jpg_as_text = ''/9j/'', socket_send = Some (RuntimeError ''closed'') \<rparr>] (started 0))
        = [BeginCapture, SendError (RuntimeError ''closed''), SendImage 2 (JStr ''A'')]
   \<and> main_status (run (default_args []) [Capture (frame_at 1), Send 0 \<lparr> jpg_as_text = ''/9j/'', socket_send = Some ZmqAgain \<rparr>, Capture (frame_at 2)] (started 0)) = Running
   \<and> it (run (default_args []) [Capture (frame_at 1), Send 0 \<lparr> jpg_as_text = ''/9j/'', socket_send = Some ZmqAgain \<rparr>, Capture (frame_at 2)] (started 0)) = 2"
  using failed_send_is_dropped [of 0 "step (default_args []) (Capture (frame_at 1)) (started 0)"
      "\<lparr> jpg_as_text = ''/9j/'', socket_send = Some ZmqAgain \<rparr>" ZmqAgain "default_args []" "frame_at 2"]
    failed_send_is_dropped [of 0 "step (default_args []) (Capture (frame_at 1)) (started 0)"
      "\<lparr> jpg_as_text = ''/9j/'', socket_send = Some (RuntimeError ''closed'') \<rparr>" "RuntimeError ''closed''" "default_args []" "frame_at 2"]
  by (simp add: client_defs)

section \<open>The configuration\<close>

text \<open>
  C8. The defaults of the configuration: 30 consecutive frames, top 100, threshold 50
  percent, cooldown 3 seconds, receive timeout 1000 milliseconds, at most 100 timeouts.
  The first four are defaults of command-line options; the last two are constants of
  \<^verbatim>\<open>initializeClient\<close> and \<^verbatim>\<open>asyncRecvLoop\<close>.
\<close>

theorem configuration_defaults:
  "consecutive (default_args d) = 30 \<and> k (default_args d) = 100 \<and> threshold (default_args d) = 50
   \<and> card_cooldown (default_args d) = 3 \<and> RCVTIMEO (client_socket a) = 1000 \<and> max_timeout = 100"
  by (simp add: default_args_def client_socket_def max_timeout_def)

section \<open>The actuator\<close>

lemma step_virtual: "virtual a \<Longrightarrow> actuated (step a ev s) = actuated s"
proof (cases ev rule: event_cases)
  case (main env)
  assume "virtual a"
  with main show ?thesis by (intro main_events_keep [where env = env]) simp_all
next
  case (recv r)
  then show ?thesis by (intro receive_events_keep [where r = r]) simp_all
next
  case (send n env)
  have "actuated (send_thread n env s) = actuated s"
    by (rule send_thread_keeps) simp_all
  with send show ?thesis by (simp add: step_def)
qed

text \<open>
  C10. In virtual mode no run of the client ever calls the actuator, whatever arrives:
  the record of actuator calls stays as it was. A gate-open decision whose name lookup
  succeeds is printed, and that is all the branch does.
\<close>

theorem virtual_gate_open_only_logged:
  "virtual a \<Longrightarrow>
     actuated (run a evs s) = actuated s
     \<and> (truthy (OPEN_GATE s) \<longrightarrow> getitem (CARD2NAME s) (RECOGNIZED_ID s) = Inr name \<longrightarrow>
          open_gate a env s = (None, s\<lparr> stdout := stdout s @ [OpenLine name (RECOGNIZED_ID s) (now env)] \<rparr>))"
proof (rule conjI)
  assume v: "virtual a"
  show "actuated (run a evs s) = actuated s"
    by (induction evs arbitrary: s) (simp_all add: step_virtual [OF v])
  show "truthy (OPEN_GATE s) \<longrightarrow> getitem (CARD2NAME s) (RECOGNIZED_ID s) = Inr name \<longrightarrow>
          open_gate a env s = (None, s\<lparr> stdout := stdout s @ [OpenLine name (RECOGNIZED_ID s) (now env)] \<rparr>)"
    using v by (simp add: open_gate_def)
qed

theorem virtual_gate_open_only_logged_witness:
  "virtual (default_args []\<lparr> virtual := True \<rparr>)
   \<and> truthy (OPEN_GATE (step (default_args []\<lparr> virtual := True \<rparr>) (Receive (Decoded (reply True JNull))) (started 0)))
   \<and> actuated (run (default_args []\<lparr> virtual := True \<rparr>) [Receive (Decoded (reply True JNull)), Capture (frame_at 1)] (started 0)) = []
   \<and> stdout (run (default_args []\<lparr> virtual := True \<rparr>) [Receive (Decoded (reply True JNull)), Capture (frame_at 1)] (started 0))
       = [BeginCapture, OpenLine (JStr ''alice'') (JStr ''A'') 1]"
  using virtual_gate_open_only_logged [of "default_args []\<lparr> virtual := True \<rparr>"
      "[Receive (Decoded (reply True JNull)), Capture (frame_at 1)]" "started 0"]
  by (simp add: client_defs)

text \<open>
  C2. The option \<^verbatim>\<open>--card-cooldown\<close> (default 3, "Disable card writer for N secs after each
  attempt to write") is parsed and never read. With the defaults, after one message with
  \<^verbatim>\<open>OPEN_GATE\<close> true, two iterations of the capture loop half a second apart both call the
  actuator: the flag stays set until the next message and nothing looks at the clock.
\<close>

theorem gate_actuated_on_every_tick:
  "card_cooldown (default_args []) = 3
   \<and> actuated (run (default_args [])
        [Receive (Decoded (reply True (JStr ''A''))), Capture (frame_at 10), Capture (frame_at (21/2))]
        (started 0)) = [(10, JStr ''A''), (21/2, JStr ''A'')]"
  by (simp add: client_defs)

end
